theory Spec2Isabelle
  imports Main "HOL-Library.Sublist"
begin

section \<open>Values, errors and the world the library runs in\<close>

text \<open>
  The library stores one JSON value per line of a text file. A decoded value is a \<open>json\<close>;
  a value a caller passes to \<open>findWhere\<close> and its relatives, or the result of reading a
  property, may also be JavaScript's \<open>undefined\<close> or a function or object of the runtime
  (\<open>Native\<close>, by its name). The text of a file and of a line is the list of the bytes of its
  UTF-8 encoding; files that are not valid UTF-8 are outside the model.
\<close>

type_synonym path = string

datatype json =
    JNull
  | JBool bool
  | JNum int
  | JStr string
  | JArr "json list"
  | JObj "(string \<times> json) list"

datatype jsval = Undefined | Val json | Native string

datatype error =
    ENOENT
  | SyntaxError
  | TypeError
  | InvalidInput
  | FileIsEmpty
  | Thrown string

text \<open>
  The world: the files (a path is absent or holds its text), what was printed by
  \<open>console.warn\<close>, and the state the caller's callbacks close over.
\<close>

record 'u world =
  files :: "path \<rightharpoonup> string"
  console :: "string list"
  user :: 'u

type_synonym ('a, 'u) io = "'u world \<Rightarrow> (error + 'a) \<times> 'u world"

type_synonym ('a, 'b, 'u) callback = "'a \<Rightarrow> 'u \<Rightarrow> (error + 'b) \<times> 'u"

definition ret :: "'a \<Rightarrow> ('a, 'u) io" where
  "ret a w = (Inr a, w)"

definition throw :: "error \<Rightarrow> ('a, 'u) io" where
  "throw e w = (Inl e, w)"

definition bnd :: "('a, 'u) io \<Rightarrow> ('a \<Rightarrow> ('b, 'u) io) \<Rightarrow> ('b, 'u) io" where
  "bnd m f w = (case m w of (Inl e, w') \<Rightarrow> (Inl e, w') | (Inr a, w') \<Rightarrow> f a w')"

text \<open>\<open>await cb(x)\<close>: the callback runs on the caller's state and returns or throws.\<close>

definition call :: "('a, 'b, 'u) callback \<Rightarrow> 'a \<Rightarrow> ('b, 'u) io" where
  "call cb x w = (case cb x (user w) of (r, u') \<Rightarrow> (r, w\<lparr>user := u'\<rparr>))"

subsection \<open>Node's file primitives\<close>

text \<open>
  \<open>readline\<close> over a read stream with \<open>crlfDelay: Infinity\<close>: a line ends at LF, CR LF or
  a lone CR; text left after the last line end is a last line when it is not empty. A file
  is its text as a list of bytes; line ends outside ASCII are not modelled.
\<close>

function split_lines_from :: "string \<Rightarrow> string \<Rightarrow> string list" where
  "split_lines_from cur [] = (if cur = [] then [] else [cur])"
| "split_lines_from cur (c # cs) =
     (if c = CHR 0x0A then cur # split_lines_from [] cs
      else if c = CHR 0x0D
        then cur # split_lines_from [] (if cs \<noteq> [] \<and> hd cs = CHR 0x0A then tl cs else cs)
      else split_lines_from (cur @ [c]) cs)"
  by pat_completeness auto
termination
  by (relation "measure (\<lambda>(cur, s). length s)") auto

definition split_lines :: "string \<Rightarrow> string list" where
  "split_lines s = split_lines_from [] s"

text \<open>
  \<open>getRl\<close> followed by \<open>for await (const line of rl)\<close>: the lines of the file as they are
  when the stream is opened; opening a path that is absent fails with ENOENT.
\<close>

definition getRl :: "path \<Rightarrow> (string list, 'u) io" where
  "getRl p w = (case files w p of None \<Rightarrow> throw ENOENT w | Some c \<Rightarrow> ret (split_lines c) w)"

definition safePathExists :: "path \<Rightarrow> (bool, 'u) io" where
  "safePathExists p w = ret (files w p \<noteq> None) w"

definition writeFile :: "path \<Rightarrow> string \<Rightarrow> (unit, 'u) io" where
  "writeFile p s w = ret () (w\<lparr>files := (files w)(p \<mapsto> s)\<rparr>)"

definition appendFile :: "path \<Rightarrow> string \<Rightarrow> (unit, 'u) io" where
  "appendFile p s w =
     ret () (w\<lparr>files := (files w)(p \<mapsto> (case files w p of None \<Rightarrow> s | Some c \<Rightarrow> c @ s))\<rparr>)"

definition rename :: "path \<Rightarrow> path \<Rightarrow> (unit, 'u) io" where
  "rename old new w =
     (case files w old of
        None \<Rightarrow> throw ENOENT w
      | Some c \<Rightarrow> if old = new then ret () w
                  else ret () (w\<lparr>files := (files w)(new \<mapsto> c, old := None)\<rparr>))"

definition unlink :: "path \<Rightarrow> (unit, 'u) io" where
  "unlink p w =
     (case files w p of
        None \<Rightarrow> throw ENOENT w
      | Some c \<Rightarrow> ret () (w\<lparr>files := (files w)(p := None)\<rparr>))"

subsection \<open>JavaScript on values\<close>

text \<open>\<open>typeof o === "object" && o !== null && !Array.isArray(o)\<close>\<close>

fun isSingleJson :: "json \<Rightarrow> bool" where
  "isSingleJson (JObj kvs) = True"
| "isSingleJson v = False"

text \<open>
  \<open>line[attribute]\<close>: a TypeError on \<open>null\<close>; on an object its own property of that
  name, if it has one. Everything else is the runtime's: the members an object inherits
  along its prototype chain (\<open>toString\<close>, \<open>constructor\<close>, ...), the built-in properties
  of strings and arrays (\<open>length\<close>, an index) and the members of their prototypes, and
  \<open>undefined\<close> where there is none. That lookup is the parameter \<open>builtin\<close>.
\<close>

fun js_get :: "(json \<Rightarrow> string \<Rightarrow> jsval) \<Rightarrow> json \<Rightarrow> string \<Rightarrow> error + jsval" where
  "js_get builtin (JObj kvs) a =
     Inr (case map_of kvs a of None \<Rightarrow> builtin (JObj kvs) a | Some v \<Rightarrow> Val v)"
| "js_get builtin JNull a = Inl TypeError"
| "js_get builtin v a = Inr (builtin v a)"

text \<open>
  \<open>x === y\<close> where \<open>x\<close> was read from a freshly decoded record: primitives compare by
  value, an array or object of the record is never identical to a value of the caller,
  a function or object of the runtime is identical to itself only.
\<close>

fun strict_eq :: "jsval \<Rightarrow> jsval \<Rightarrow> bool" where
  "strict_eq Undefined y = (y = Undefined)"
| "strict_eq (Native n) y = (y = Native n)"
| "strict_eq (Val (JArr xs)) y = False"
| "strict_eq (Val (JObj kvs)) y = False"
| "strict_eq (Val v) y = (y = Val v)"

text \<open>
  \<open>line.trim()\<close> removes white space and line terminators from both ends: TAB, LF, VT,
  FF, CR, SP, U+00A0, U+1680, U+2000 to U+200A, U+2028, U+2029, U+202F, U+205F, U+3000
  and U+FEFF, here in their UTF-8 encodings.
\<close>

definition white_space :: "string list" where
  "white_space =
     [[CHR 0x09], [CHR 0x0A], [CHR 0x0B], [CHR 0x0C], [CHR 0x0D], [CHR 0x20],
      [CHR 0xC2, CHR 0xA0],
      [CHR 0xE1, CHR 0x9A, CHR 0x80],
      [CHR 0xE2, CHR 0x80, CHR 0x80], [CHR 0xE2, CHR 0x80, CHR 0x81],
      [CHR 0xE2, CHR 0x80, CHR 0x82], [CHR 0xE2, CHR 0x80, CHR 0x83],
      [CHR 0xE2, CHR 0x80, CHR 0x84], [CHR 0xE2, CHR 0x80, CHR 0x85],
      [CHR 0xE2, CHR 0x80, CHR 0x86], [CHR 0xE2, CHR 0x80, CHR 0x87],
      [CHR 0xE2, CHR 0x80, CHR 0x88], [CHR 0xE2, CHR 0x80, CHR 0x89],
      [CHR 0xE2, CHR 0x80, CHR 0x8A],
      [CHR 0xE2, CHR 0x80, CHR 0xA8], [CHR 0xE2, CHR 0x80, CHR 0xA9],
      [CHR 0xE2, CHR 0x80, CHR 0xAF],
      [CHR 0xE2, CHR 0x81, CHR 0x9F],
      [CHR 0xE3, CHR 0x80, CHR 0x80],
      [CHR 0xEF, CHR 0xBB, CHR 0xBF]]"

text \<open>The length of the white space character a text starts with or ends with; 0 if none.\<close>

definition space_at_start :: "string \<Rightarrow> nat" where
  "space_at_start s =
     (case List.find (\<lambda>ws. prefix ws s) white_space of None \<Rightarrow> 0 | Some ws \<Rightarrow> length ws)"

definition space_at_end :: "string \<Rightarrow> nat" where
  "space_at_end s =
     (case List.find (\<lambda>ws. suffix ws s) white_space of None \<Rightarrow> 0 | Some ws \<Rightarrow> length ws)"

function trimStart :: "string \<Rightarrow> string" where
  "trimStart s = (if space_at_start s = 0 then s else trimStart (drop (space_at_start s) s))"
  by pat_completeness auto
termination
proof (relation "measure length")
  show "wf (measure length)" by simp
next
  fix s :: string
  assume "space_at_start s \<noteq> 0"
  moreover have "space_at_start s \<le> length s"
    by (auto simp: space_at_start_def find_Some_iff prefix_length_le split: option.splits)
  ultimately show "(drop (space_at_start s) s, s) \<in> measure length"
    by (cases s) auto
qed

function trimEnd :: "string \<Rightarrow> string" where
  "trimEnd s = (if space_at_end s = 0 then s else trimEnd (take (length s - space_at_end s) s))"
  by pat_completeness auto
termination
proof (relation "measure length")
  show "wf (measure length)" by simp
next
  fix s :: string
  assume "space_at_end s \<noteq> 0"
  moreover have "space_at_end s \<le> length s"
    by (auto simp: space_at_end_def find_Some_iff suffix_length_le split: option.splits)
  ultimately show "(take (length s - space_at_end s) s, s) \<in> measure length"
    by (cases s) auto
qed

declare trimStart.simps [simp del] trimEnd.simps [simp del]

definition trim :: "string \<Rightarrow> string" where
  "trim s = trimEnd (trimStart s)"

text \<open>
  \<open>line.substring(0, n)\<close> counts UTF-16 code units: a character of one to three bytes of
  UTF-8 is one unit, a character of four bytes is two (a surrogate pair). When the cut
  falls inside a pair the text ends with a lone surrogate, which is printed as U+FFFD.
\<close>

definition utf8_width :: "char \<Rightarrow> nat" where
  "utf8_width c =
     (if of_char c < (0x80::nat) then 1 else if of_char c < (0xE0::nat) then 2
      else if of_char c < (0xF0::nat) then 3 else 4)"

function substring :: "nat \<Rightarrow> string \<Rightarrow> string" where
  "substring n s =
     (if n = 0 \<or> s = [] then []
      else if utf8_width (hd s) = 4
        then (if n = 1 then [CHR 0xEF, CHR 0xBF, CHR 0xBD]
              else take 4 s @ substring (n - 2) (drop 4 s))
      else take (utf8_width (hd s)) s @ substring (n - 1) (drop (utf8_width (hd s)) s))"
  by pat_completeness auto
termination
  by (relation "measure (\<lambda>(n, s). n)") auto

declare substring.simps [simp del]

section \<open>The line engine of \<open>lib/jsonl.ts\<close>\<close>

text \<open>
  \<open>JSON.parse\<close> is the decoder of the JavaScript runtime; the engine takes it as the
  parameter \<open>parse\<close>, with \<open>None\<close> for the SyntaxError it throws.
\<close>

definition warning :: "string \<Rightarrow> string" where
  "warning line = ''Warning: Skipping invalid JSON line: '' @ substring 100 line @ ''...''"

definition warn :: "string \<Rightarrow> 'u world \<Rightarrow> 'u world" where
  "warn line w = w\<lparr>console := console w @ [warning line]\<rparr>"

text \<open>
  The loop of \<open>read\<close>: \<open>batch\<close> is the buffer; a stop signal leaves the loop with
  \<open>canEndGlobal\<close> set, so that nothing is flushed after it.
\<close>

fun jsonl_read_loop ::
  "(string \<Rightarrow> json option) \<Rightarrow> (json list, bool, 'u) callback \<Rightarrow> nat \<Rightarrow> string list \<Rightarrow> json list
     \<Rightarrow> (unit, 'u) io" where
  "jsonl_read_loop parse onBatch batchSize [] batch w =
     (if length batch > 0 then bnd (call onBatch batch) (\<lambda>_. ret ()) w else ret () w)"
| "jsonl_read_loop parse onBatch batchSize (line # rest) batch w =
     (if trim line = [] then jsonl_read_loop parse onBatch batchSize rest batch w
      else case parse line of
        None \<Rightarrow> jsonl_read_loop parse onBatch batchSize rest batch (warn line w)
      | Some parsed \<Rightarrow>
          if length (batch @ [parsed]) = batchSize
          then bnd (call onBatch (batch @ [parsed]))
                 (\<lambda>canEnd. if canEnd then ret ()
                           else jsonl_read_loop parse onBatch batchSize rest []) w
          else jsonl_read_loop parse onBatch batchSize rest (batch @ [parsed]) w)"

definition jsonl_read ::
  "(string \<Rightarrow> json option) \<Rightarrow> path \<Rightarrow> (json list, bool, 'u) callback \<Rightarrow> nat \<Rightarrow> (unit, 'u) io" where
  "jsonl_read parse filePath onBatch batchSize =
     bnd (safePathExists filePath) (\<lambda>ex.
       if \<not> ex then ret ()
       else bnd (getRl filePath) (\<lambda>ls. jsonl_read_loop parse onBatch batchSize ls []))"

text \<open>
  The loop of \<open>readLineByLine\<close>: one \<open>try\<close> block holds both \<open>JSON.parse(line)\<close> and
  \<open>await onLine(parsed)\<close>, and its \<open>catch\<close> warns and continues with the next line.
\<close>

fun jsonl_readLineByLine_loop ::
  "(string \<Rightarrow> json option) \<Rightarrow> (json, bool, 'u) callback \<Rightarrow> string list \<Rightarrow> (unit, 'u) io" where
  "jsonl_readLineByLine_loop parse onLine [] w = ret () w"
| "jsonl_readLineByLine_loop parse onLine (line # rest) w =
     (if trim line = [] then jsonl_readLineByLine_loop parse onLine rest w
      else case parse line of
        None \<Rightarrow> jsonl_readLineByLine_loop parse onLine rest (warn line w)
      | Some parsed \<Rightarrow>
          (case call onLine parsed w of
             (Inl e, w') \<Rightarrow> jsonl_readLineByLine_loop parse onLine rest (warn line w')
           | (Inr result, w') \<Rightarrow>
               if result then ret () w'
               else jsonl_readLineByLine_loop parse onLine rest w'))"

definition jsonl_readLineByLine ::
  "(string \<Rightarrow> json option) \<Rightarrow> path \<Rightarrow> (json, bool, 'u) callback \<Rightarrow> (unit, 'u) io" where
  "jsonl_readLineByLine parse filePath onLine =
     bnd (safePathExists filePath) (\<lambda>ex.
       if \<not> ex then ret ()
       else bnd (getRl filePath) (jsonl_readLineByLine_loop parse onLine))"

text \<open>
  \<open>count\<close> runs \<open>read\<close> with the default batch size 1000 and a callback that adds the
  length of each batch to a counter of its own.
\<close>

definition with_local :: "'s \<Rightarrow> 'u world \<Rightarrow> ('u \<times> 's) world" where
  "with_local s w = \<lparr>files = files w, console = console w, user = (user w, s)\<rparr>"

definition drop_local :: "('u \<times> 's) world \<Rightarrow> 'u world" where
  "drop_local w = \<lparr>files = files w, console = console w, user = fst (user w)\<rparr>"

definition local_of :: "('u \<times> 's) world \<Rightarrow> 's" where
  "local_of w = snd (user w)"

text \<open>
  A method whose callback closes over a local variable: the variable starts as \<open>s\<close>, the
  traversal runs, and the method returns \<open>result\<close> of the variable's last value.
\<close>

definition closure ::
  "'s \<Rightarrow> (unit, 'u \<times> 's) io \<Rightarrow> ('s \<Rightarrow> 'a) \<Rightarrow> ('a, 'u) io" where
  "closure s m result w =
     (case m (with_local s w) of
        (Inl e, w') \<Rightarrow> (Inl e, drop_local w')
      | (Inr _, w') \<Rightarrow> (Inr (result (local_of w')), drop_local w'))"

definition jsonl_count :: "(string \<Rightarrow> json option) \<Rightarrow> path \<Rightarrow> (nat, 'u) io" where
  "jsonl_count parse filePath =
     bnd (safePathExists filePath) (\<lambda>ex.
       if \<not> ex then ret 0
       else closure 0
              (jsonl_read parse filePath (\<lambda>batch (u, lineCount). (Inr False, (u, lineCount + length batch))) 1000)
              (\<lambda>lineCount. lineCount))"

section \<open>The single-file engine of \<open>jsonlFile.js\<close>\<close>

text \<open>\<open>JSON.parse(line)\<close> with nothing around it: a line that does not decode throws.\<close>

definition JSON_parse :: "(string \<Rightarrow> json option) \<Rightarrow> string \<Rightarrow> (json, 'u) io" where
  "JSON_parse parse s = (case parse s of None \<Rightarrow> throw SyntaxError | Some v \<Rightarrow> ret v)"

fun jsonlFile_read_loop ::
  "(string \<Rightarrow> json option) \<Rightarrow> (json \<Rightarrow> (bool, 'u) io) \<Rightarrow> string list \<Rightarrow> (unit, 'u) io" where
  "jsonlFile_read_loop parse onLine [] w = ret () w"
| "jsonlFile_read_loop parse onLine (line # rest) w =
     bnd (JSON_parse parse line) (\<lambda>v.
       bnd (onLine v) (\<lambda>canEnd.
         if canEnd then ret () else jsonlFile_read_loop parse onLine rest)) w"

text \<open>
  \<open>read(onLine)\<close>. The methods of the engine pass closures of their own that write files,
  so \<open>onLine\<close> acts on the world; a caller's callback \<open>cb\<close> is passed as \<open>call cb\<close>.
\<close>

definition jsonlFile_read ::
  "(string \<Rightarrow> json option) \<Rightarrow> path \<Rightarrow> (json \<Rightarrow> (bool, 'u) io) \<Rightarrow> (unit, 'u) io" where
  "jsonlFile_read parse path onLine = bnd (getRl path) (jsonlFile_read_loop parse onLine)"

fun jsonlFile_readByBatch_loop ::
  "(string \<Rightarrow> json option) \<Rightarrow> (json list, bool, 'u) callback \<Rightarrow> nat \<Rightarrow> string list \<Rightarrow> json list
     \<Rightarrow> (unit, 'u) io" where
  "jsonlFile_readByBatch_loop parse onBatch batchSize [] batch w =
     (if length batch > 0 then bnd (call onBatch batch) (\<lambda>_. ret ()) w else ret () w)"
| "jsonlFile_readByBatch_loop parse onBatch batchSize (line # rest) batch w =
     bnd (JSON_parse parse line) (\<lambda>v.
       if length (batch @ [v]) = batchSize
       then bnd (call onBatch (batch @ [v]))
              (\<lambda>canEnd. if canEnd then ret ()
                        else jsonlFile_readByBatch_loop parse onBatch batchSize rest [])
       else jsonlFile_readByBatch_loop parse onBatch batchSize rest (batch @ [v])) w"

definition jsonlFile_readByBatch ::
  "(string \<Rightarrow> json option) \<Rightarrow> path \<Rightarrow> (json list, bool, 'u) callback \<Rightarrow> nat \<Rightarrow> (unit, 'u) io" where
  "jsonlFile_readByBatch parse path onBatch batchSize =
     bnd (getRl path) (\<lambda>ls. jsonlFile_readByBatch_loop parse onBatch batchSize ls [])"

text \<open>
  \<open>first\<close> and \<open>last\<close> of \<open>jsonlFile.js\<close>: the variable stays \<open>undefined\<close> when the file
  has no line, and \<open>JSON.parse(undefined)\<close> decodes the text \<open>undefined\<close>.
\<close>

definition jsonlFile_first :: "(string \<Rightarrow> json option) \<Rightarrow> path \<Rightarrow> (json, 'u) io" where
  "jsonlFile_first parse path =
     bnd (getRl path) (\<lambda>ls.
       case ls of [] \<Rightarrow> JSON_parse parse ''undefined''
                | firstLine # _ \<Rightarrow> JSON_parse parse firstLine)"

definition jsonlFile_last :: "(string \<Rightarrow> json option) \<Rightarrow> path \<Rightarrow> (json, 'u) io" where
  "jsonlFile_last parse path =
     bnd (getRl path) (\<lambda>ls.
       if ls = [] then JSON_parse parse ''undefined''
       else JSON_parse parse (last ls))"

text \<open>
  The TypeScript build of the same engine adds \<open>if (!firstLine) throw new Error("File is
  empty")\<close>: the guard fires when no line was read and when the line is the empty string.
\<close>

definition jsonlFile_ts_first :: "(string \<Rightarrow> json option) \<Rightarrow> path \<Rightarrow> (json, 'u) io" where
  "jsonlFile_ts_first parse path =
     bnd (getRl path) (\<lambda>ls.
       case ls of [] \<Rightarrow> throw FileIsEmpty
                | firstLine # _ \<Rightarrow>
                    if firstLine = [] then throw FileIsEmpty else JSON_parse parse firstLine)"

definition jsonlFile_ts_last :: "(string \<Rightarrow> json option) \<Rightarrow> path \<Rightarrow> (json, 'u) io" where
  "jsonlFile_ts_last parse path =
     bnd (getRl path) (\<lambda>ls.
       if ls = [] then throw FileIsEmpty
       else if last ls = [] then throw FileIsEmpty
       else JSON_parse parse (last ls))"

definition set_local :: "'s \<Rightarrow> (unit, 'u \<times> 's) io" where
  "set_local s w = ret () (w\<lparr>user := (fst (user w), s)\<rparr>)"

definition get_local :: "('s, 'u \<times> 's) io" where
  "get_local w = ret (snd (user w)) w"

text \<open>A caller's callback, run inside a method that keeps a local variable.\<close>

definition call_outer :: "('a, 'b, 'u) callback \<Rightarrow> 'a \<Rightarrow> ('b, 'u \<times> 's) io" where
  "call_outer cb x w =
     (case cb x (fst (user w)) of (r, u') \<Rightarrow> (r, w\<lparr>user := (u', snd (user w))\<rparr>))"

text \<open>The arrow function that \<open>findWhere\<close> passes to \<open>read\<close>; \<open>found\<close> is the local variable.\<close>

definition findWhere_onLine ::
  "(json \<Rightarrow> string \<Rightarrow> jsval) \<Rightarrow> string \<Rightarrow> jsval \<Rightarrow> json \<Rightarrow> (bool, 'u \<times> jsval) io" where
  "findWhere_onLine builtin attribute v line =
     (case js_get builtin line attribute of
        Inl e \<Rightarrow> throw e
      | Inr x \<Rightarrow> if strict_eq x v then bnd (set_local (Val line)) (\<lambda>_. ret True)
                 else ret False)"

definition jsonlFile_findWhere ::
  "(string \<Rightarrow> json option) \<Rightarrow> (json \<Rightarrow> string \<Rightarrow> jsval) \<Rightarrow> path \<Rightarrow> string \<Rightarrow> jsval
     \<Rightarrow> (jsval, 'u) io" where
  "jsonlFile_findWhere parse builtin path attribute v =
     closure Undefined (jsonlFile_read parse path (findWhere_onLine builtin attribute v))
       (\<lambda>found. found)"

definition jsonlFile_findMatch ::
  "(string \<Rightarrow> json option) \<Rightarrow> path \<Rightarrow> (json, bool, 'u) callback \<Rightarrow> (json list, 'u) io" where
  "jsonlFile_findMatch parse path matchFn =
     closure []
       (jsonlFile_read parse path (\<lambda>line.
          bnd (call_outer matchFn line) (\<lambda>m.
            if m then bnd get_local (\<lambda>found. bnd (set_local (found @ [line])) (\<lambda>_. ret False))
            else ret False)))
       (\<lambda>found. found)"

definition jsonlFile_count :: "path \<Rightarrow> (nat, 'u) io" where
  "jsonlFile_count path = bnd (getRl path) (\<lambda>ls. ret (length ls))"

subsection \<open>Appending\<close>

text \<open>\<open>JSON.stringify\<close> is the encoder of the runtime, taken as the parameter \<open>stringify\<close>.\<close>

definition jsonlFile_isEmptyFile :: "path \<Rightarrow> (bool, 'u) io" where
  "jsonlFile_isEmptyFile path =
     bnd (safePathExists path) (\<lambda>ex.
       if \<not> ex then ret True
       else bnd (getRl path) (\<lambda>ls. ret (ls = [])))"

definition ensureFileAndGetPrefix :: "path \<Rightarrow> (string, 'u) io" where
  "ensureFileAndGetPrefix path =
     bnd (safePathExists path) (\<lambda>ex.
       bnd (if \<not> ex then bnd (writeFile path []) (\<lambda>_. ret True)
            else jsonlFile_isEmptyFile path)
         (\<lambda>fileIsEmpty. ret (if fileIsEmpty then [] else [CHR 0x0A])))"

definition addText :: "path \<Rightarrow> string \<Rightarrow> (unit, 'u) io" where
  "addText path line =
     bnd (ensureFileAndGetPrefix path) (\<lambda>prefix. appendFile path (prefix @ line))"

definition jsonlFile_add :: "(json \<Rightarrow> string) \<Rightarrow> path \<Rightarrow> json \<Rightarrow> (unit, 'u) io" where
  "jsonlFile_add stringify path o' =
     (if \<not> isSingleJson o' then throw InvalidInput else addText path (stringify o'))"

subsection \<open>Update and delete by rewriting\<close>

text \<open>
  \<open>temporaryFileTask\<close>: the task runs on the scratch path \<open>tempFilePath\<close> (drawn at random
  by \<open>generateTempFilePath\<close>, here a parameter); the \<open>finally\<close> block unlinks the path
  and swallows the failure of that, whatever the task did.
\<close>

definition temporaryFileTask :: "path \<Rightarrow> (path \<Rightarrow> ('a, 'u) io) \<Rightarrow> ('a, 'u) io" where
  "temporaryFileTask tempFilePath task w =
     (case task tempFilePath w of (r, w') \<Rightarrow> (r, snd (unlink tempFilePath w')))"

text \<open>The arrow functions that the four methods pass to \<open>read\<close>.\<close>

definition updateWhere_onLine ::
  "(json \<Rightarrow> string) \<Rightarrow> (json \<Rightarrow> string \<Rightarrow> jsval) \<Rightarrow> path \<Rightarrow> string \<Rightarrow> jsval
     \<Rightarrow> (json, json, 'u) callback \<Rightarrow> json \<Rightarrow> (bool, 'u) io" where
  "updateWhere_onLine stringify builtin tmpPath attribute v updateFn line =
     (case js_get builtin line attribute of
        Inl e \<Rightarrow> throw e
      | Inr x \<Rightarrow>
          if strict_eq x v
          then bnd (call updateFn line) (\<lambda>updatedLine.
                 bnd (jsonlFile_add stringify tmpPath updatedLine) (\<lambda>_. ret False))
          else bnd (jsonlFile_add stringify tmpPath line) (\<lambda>_. ret False))"

definition updateMatch_onLine ::
  "(json \<Rightarrow> string) \<Rightarrow> path \<Rightarrow> (json, bool, 'u) callback \<Rightarrow> (json, json, 'u) callback \<Rightarrow> json
     \<Rightarrow> (bool, 'u) io" where
  "updateMatch_onLine stringify tmpPath matchFn updateFn line =
     bnd (call matchFn line) (\<lambda>m.
       if m
       then bnd (call updateFn line) (\<lambda>updatedLine.
              bnd (jsonlFile_add stringify tmpPath updatedLine) (\<lambda>_. ret False))
       else bnd (jsonlFile_add stringify tmpPath line) (\<lambda>_. ret False))"

definition deleteWhere_onLine ::
  "(json \<Rightarrow> string) \<Rightarrow> (json \<Rightarrow> string \<Rightarrow> jsval) \<Rightarrow> path \<Rightarrow> string \<Rightarrow> jsval \<Rightarrow> json
     \<Rightarrow> (bool, 'u) io" where
  "deleteWhere_onLine stringify builtin tmpPath attribute v line =
     (case js_get builtin line attribute of
        Inl e \<Rightarrow> throw e
      | Inr x \<Rightarrow>
          if \<not> strict_eq x v
          then bnd (jsonlFile_add stringify tmpPath line) (\<lambda>_. ret False)
          else ret False)"

definition deleteMatch_onLine ::
  "(json \<Rightarrow> string) \<Rightarrow> path \<Rightarrow> (json, bool, 'u) callback \<Rightarrow> json \<Rightarrow> (bool, 'u) io" where
  "deleteMatch_onLine stringify tmpPath matchFn line =
     bnd (call matchFn line) (\<lambda>m.
       if \<not> m
       then bnd (jsonlFile_add stringify tmpPath line) (\<lambda>_. ret False)
       else ret False)"

definition updateWhere ::
  "(string \<Rightarrow> json option) \<Rightarrow> (json \<Rightarrow> string) \<Rightarrow> (json \<Rightarrow> string \<Rightarrow> jsval) \<Rightarrow> path \<Rightarrow> path
     \<Rightarrow> string \<Rightarrow> jsval \<Rightarrow> (json, json, 'u) callback \<Rightarrow> (unit, 'u) io" where
  "updateWhere parse stringify builtin tempFilePath path attribute v updateFn =
     temporaryFileTask tempFilePath (\<lambda>tmpPath.
       bnd (jsonlFile_read parse path
              (updateWhere_onLine stringify builtin tmpPath attribute v updateFn))
         (\<lambda>_. rename tmpPath path))"

definition updateMatch ::
  "(string \<Rightarrow> json option) \<Rightarrow> (json \<Rightarrow> string) \<Rightarrow> path \<Rightarrow> path \<Rightarrow> (json, bool, 'u) callback
     \<Rightarrow> (json, json, 'u) callback \<Rightarrow> (unit, 'u) io" where
  "updateMatch parse stringify tempFilePath path matchFn updateFn =
     temporaryFileTask tempFilePath (\<lambda>tmpPath.
       bnd (jsonlFile_read parse path (updateMatch_onLine stringify tmpPath matchFn updateFn))
         (\<lambda>_. rename tmpPath path))"

definition deleteWhere ::
  "(string \<Rightarrow> json option) \<Rightarrow> (json \<Rightarrow> string) \<Rightarrow> (json \<Rightarrow> string \<Rightarrow> jsval) \<Rightarrow> path \<Rightarrow> path
     \<Rightarrow> string \<Rightarrow> jsval \<Rightarrow> (unit, 'u) io" where
  "deleteWhere parse stringify builtin tempFilePath path attribute v =
     temporaryFileTask tempFilePath (\<lambda>tmpPath.
       bnd (jsonlFile_read parse path (deleteWhere_onLine stringify builtin tmpPath attribute v))
         (\<lambda>_. rename tmpPath path))"

definition deleteMatch ::
  "(string \<Rightarrow> json option) \<Rightarrow> (json \<Rightarrow> string) \<Rightarrow> path \<Rightarrow> path \<Rightarrow> (json, bool, 'u) callback
     \<Rightarrow> (unit, 'u) io" where
  "deleteMatch parse stringify tempFilePath path matchFn =
     temporaryFileTask tempFilePath (\<lambda>tmpPath.
       bnd (jsonlFile_read parse path (deleteMatch_onLine stringify tmpPath matchFn))
         (\<lambda>_. rename tmpPath path))"

section \<open>The directory facade \<open>jsonlDir\<close>\<close>

text \<open>
  \<open>update\<close> and \<open>delete\<close> run \<open>read\<close> of \<open>lib/jsonl.ts\<close> with its default batch size and
  collect into a local array; the loop over one batch is \<open>for (const jsonObject of batch)\<close>.
\<close>

fun update_batch ::
  "(json, bool, 'u) callback \<Rightarrow> (json, json, 'u) callback \<Rightarrow> json list
     \<Rightarrow> 'u \<times> json list \<Rightarrow> (error + bool) \<times> ('u \<times> json list)" where
  "update_batch matchFn updateFn [] (u, updated) = (Inr False, (u, updated))"
| "update_batch matchFn updateFn (jsonObject # rest) (u, updated) =
     (case matchFn jsonObject u of
        (Inl e, u') \<Rightarrow> (Inl e, (u', updated))
      | (Inr m, u') \<Rightarrow>
          if m then (case updateFn jsonObject u' of
                       (Inl e, u'') \<Rightarrow> (Inl e, (u'', updated))
                     | (Inr r, u'') \<Rightarrow> update_batch matchFn updateFn rest (u'', updated @ [r]))
          else update_batch matchFn updateFn rest (u', updated))"

fun delete_batch ::
  "(json, bool, 'u) callback \<Rightarrow> json list
     \<Rightarrow> 'u \<times> json list \<Rightarrow> (error + bool) \<times> ('u \<times> json list)" where
  "delete_batch matchFn [] (u, deleted) = (Inr False, (u, deleted))"
| "delete_batch matchFn (jsonObject # rest) (u, deleted) =
     (case matchFn jsonObject u of
        (Inl e, u') \<Rightarrow> (Inl e, (u', deleted))
      | (Inr m, u') \<Rightarrow>
          if \<not> m then delete_batch matchFn rest (u', deleted @ [jsonObject])
          else delete_batch matchFn rest (u', deleted))"

definition jsonlDir_update ::
  "(string \<Rightarrow> json option) \<Rightarrow> path \<Rightarrow> (json, bool, 'u) callback \<Rightarrow> (json, json, 'u) callback
     \<Rightarrow> (json list, 'u) io" where
  "jsonlDir_update parse filePath matchFn updateFn =
     closure [] (jsonl_read parse filePath (update_batch matchFn updateFn) 1000) (\<lambda>updated. updated)"

definition jsonlDir_delete ::
  "(string \<Rightarrow> json option) \<Rightarrow> path \<Rightarrow> (json, bool, 'u) callback \<Rightarrow> (json list, 'u) io" where
  "jsonlDir_delete parse filePath matchFn =
     closure [] (jsonl_read parse filePath (delete_batch matchFn) 1000) (\<lambda>deleted. deleted)"

section \<open>Records, traces and example inputs\<close>

text \<open>
  The decoded records of a list of lines, as \<open>lib/jsonl.ts\<close> sees them: blank lines and
  lines that do not decode are left out.
\<close>

definition decoded :: "(string \<Rightarrow> json option) \<Rightarrow> string list \<Rightarrow> json list" where
  "decoded parse ls = List.map_filter parse (filter (\<lambda>l. trim l \<noteq> []) ls)"

text \<open>
  A callback that also writes down each argument it is called with and what it answered;
  the log is how a theorem speaks of the invocations of a callback.
\<close>

definition traced :: "('a, 'b, 'u) callback \<Rightarrow> ('a, 'b, 'u \<times> ('a \<times> (error + 'b)) list) callback" where
  "traced cb x = (\<lambda>(u, lg). case cb x u of (r, u') \<Rightarrow> (r, (u', lg @ [(x, r)])))"

definition keep_going :: "('a, bool, 'u) callback" where
  "keep_going x u = (Inr False, u)"

definition always_throws :: "('a, bool, 'u) callback" where
  "always_throws x u = (Inl (Thrown ''boom''), u)"

definition always_true :: "('a, bool, 'u) callback" where
  "always_true x u = (Inr True, u)"

definition line_a1 :: string where
  \<open>line_a1 = ''{"a":1}''\<close>

definition line_a2 :: string where
  \<open>line_a2 = ''{"a":2}''\<close>

definition line_b1 :: string where
  \<open>line_b1 = ''{"b":1}''\<close>

definition rec_b1 :: json where
  "rec_b1 = JObj [(''b'', JNum 1)]"

definition rec_a1 :: json where
  "rec_a1 = JObj [(''a'', JNum 1)]"

definition rec_a2 :: json where
  "rec_a2 = JObj [(''a'', JNum 2)]"

text \<open>\<open>JSON.parse\<close> and \<open>JSON.stringify\<close> on the lines and records of the examples.\<close>

definition example_parse :: "string \<Rightarrow> json option" where
  "example_parse s =
     (if s = line_a1 then Some rec_a1 else if s = line_a2 then Some rec_a2
      else if s = line_b1 then Some rec_b1 else None)"

definition example_stringify :: "json \<Rightarrow> string" where
  "example_stringify v =
     (if v = rec_a1 then line_a1 else if v = rec_a2 then line_a2
      else if v = rec_b1 then line_b1 else ''{}'')"

definition world_of :: "(path \<rightharpoonup> string) \<Rightarrow> 'u \<Rightarrow> 'u world" where
  "world_of fs u = \<lparr>files = fs, console = [], user = u\<rparr>"

definition no_files :: "unit world" where
  "no_files = world_of Map.empty ()"

definition two_lines :: string where
  "two_lines = line_a1 @ [CHR 0x0A] @ line_a2"

definition users_fs :: "path \<rightharpoonup> string" where
  "users_fs = [''users.jsonl'' \<mapsto> two_lines]"

definition mixed_lines :: string where
  "mixed_lines = line_a1 @ [CHR 0x0A] @ line_b1"

definition mixed_fs :: "path \<rightharpoonup> string" where
  "mixed_fs = [''users.jsonl'' \<mapsto> mixed_lines]"



text \<open>An object that has no own property of the given name.\<close>

fun lacks :: "string \<Rightarrow> json \<Rightarrow> bool" where
  "lacks a (JObj kvs) = (a \<notin> fst ` set kvs)"
| "lacks a v = False"

text \<open>A callback that computes its answer from its argument alone and never throws.\<close>

definition pure_cb :: "('a \<Rightarrow> 'b) \<Rightarrow> ('a, 'b, 'u) callback" where
  "pure_cb f x u = (Inr (f x), u)"

text \<open>The decoded records of the file at a path; none when the path holds no file.\<close>

definition records_of :: "(string \<Rightarrow> json option) \<Rightarrow> 'u world \<Rightarrow> path \<Rightarrow> json list" where
  "records_of parse w p = (case files w p of None \<Rightarrow> [] | Some c \<Rightarrow> decoded parse (split_lines c))"

section \<open>Batches and runs of a callback\<close>

text \<open>
  What the specification says of \<open>readByBatch\<close>: the records cut into batches of \<open>k\<close>, the
  last one possibly shorter. (With \<open>k = 0\<close> the buffer never reaches the batch size and
  everything is flushed at the end as one batch.)
\<close>

function chunks :: "nat \<Rightarrow> 'a list \<Rightarrow> 'a list list" where
  "chunks k xs = (if xs = [] then [] else if k = 0 then [xs] else take k xs # chunks k (drop k xs))"
  by pat_completeness auto
termination
  by (relation "measure (\<lambda>(k, xs). length xs)") auto

declare chunks.simps [simp del]

text \<open>
  A run of a callback over a list of items, as the specification describes a traversal:
  the items are passed one by one until an answer halts the run. \<open>feed\<close> is the halting
  answer (if any) and the caller's state after the run, \<open>calls\<close> the invocations made.
  The traversals halt on a stop signal or an error (\<open>stop_or_throw\<close>); \<open>readLineByLine\<close>
  halts on a stop signal only (\<open>stop_only\<close>).
\<close>

definition stop_or_throw :: "error + bool \<Rightarrow> bool" where
  "stop_or_throw r = (r \<noteq> Inr False)"

definition stop_only :: "error + bool \<Rightarrow> bool" where
  "stop_only r = (r = Inr True)"

fun feed :: "((error + 'b) \<Rightarrow> bool) \<Rightarrow> ('a, 'b, 'u) callback \<Rightarrow> 'a list \<Rightarrow> 'u \<Rightarrow> (error + 'b) option \<times> 'u" where
  "feed halt cb [] u = (None, u)"
| "feed halt cb (x # xs) u =
     (case cb x u of (r, u') \<Rightarrow> if halt r then (Some r, u') else feed halt cb xs u')"

fun calls :: "((error + 'b) \<Rightarrow> bool) \<Rightarrow> ('a, 'b, 'u) callback \<Rightarrow> 'a list \<Rightarrow> 'u \<Rightarrow> ('a \<times> (error + 'b)) list" where
  "calls halt cb [] u = []"
| "calls halt cb (x # xs) u =
     (case cb x u of (r, u') \<Rightarrow> if halt r then [(x, r)] else (x, r) # calls halt cb xs u')"

definition outcome :: "(error + 'b) option \<Rightarrow> error + unit" where
  "outcome r = (case r of Some (Inl e) \<Rightarrow> Inl e | _ \<Rightarrow> Inr ())"


text \<open>
  A log \<open>lg\<close> of invocations is a run over \<open>xs\<close>: the arguments are an initial part of
  \<open>xs\<close> in order, no invocation but the last had a halting answer, and if no answer
  halted then all of \<open>xs\<close> was passed.
\<close>

definition run_of :: "((error + 'b) \<Rightarrow> bool) \<Rightarrow> ('a \<times> (error + 'b)) list \<Rightarrow> 'a list \<Rightarrow> bool" where
  "run_of halt lg xs \<longleftrightarrow>
     prefix (map fst lg) xs
     \<and> (\<forall>i. Suc i < length lg \<longrightarrow> \<not> halt (snd (lg ! i)))
     \<and> ((\<forall>e\<in>set lg. \<not> halt (snd e)) \<longrightarrow> map fst lg = xs)"

text \<open>
  What the specification says of a stop signal: the arguments of the invocations \<open>lg\<close>
  are an initial part of \<open>xs\<close> in order, no invocation follows one that answered
  \<open>true\<close>, and if every invocation answered \<open>false\<close> then all of \<open>xs\<close> was passed. (Of
  what follows a thrown error this says nothing.)
\<close>

definition run_until_stop :: "('a \<times> (error + bool)) list \<Rightarrow> 'a list \<Rightarrow> bool" where
  "run_until_stop lg xs \<longleftrightarrow>
     prefix (map fst lg) xs
     \<and> (\<forall>i. Suc i < length lg \<longrightarrow> snd (lg ! i) \<noteq> Inr True)
     \<and> ((\<forall>e\<in>set lg. snd e = Inr False) \<longrightarrow> map fst lg = xs)"

text \<open>
  The records of the lines before the first line that does not decode: \<open>read\<close> of
  \<open>jsonlFile.js\<close> decodes every line as it stands and throws at the first that fails.
\<close>

definition decoded_until_failure :: "(string \<Rightarrow> json option) \<Rightarrow> string list \<Rightarrow> json list" where
  "decoded_until_failure parse ls = map (\<lambda>l. the (parse l)) (takeWhile (\<lambda>l. parse l \<noteq> None) ls)"

definition bad_then_record :: string where
  "bad_then_record = ''not-json'' @ [CHR 0x0A] @ line_a1"

definition bad_fs :: "path \<rightharpoonup> string" where
  "bad_fs = [''users.jsonl'' \<mapsto> bad_then_record]"

definition bad_between :: string where
  "bad_between = line_a1 @ [CHR 0x0A] @ ''not-json'' @ [CHR 0x0A] @ line_a2"

definition between_fs :: "path \<rightharpoonup> string" where
  "between_fs = [''users.jsonl'' \<mapsto> bad_between]"

text \<open>
  The members that every object inherits from \<open>Object.prototype\<close> in Node, and with them
  an example of the runtime's lookup, for decoded objects: under these names it finds the
  inherited member, under every other name nothing.
\<close>

definition object_prototype :: "string list" where
  "object_prototype =
     [''constructor'', ''__defineGetter__'', ''__defineSetter__'', ''hasOwnProperty'',
      ''__lookupGetter__'', ''__lookupSetter__'', ''isPrototypeOf'', ''propertyIsEnumerable'',
      ''toString'', ''valueOf'', ''__proto__'', ''toLocaleString'']"

definition example_builtin :: "json \<Rightarrow> string \<Rightarrow> jsval" where
  "example_builtin v a = (if a \<in> set object_prototype then Native a else Undefined)"


text \<open>
  The lines of the file at a path, and those of them that \<open>lib/jsonl.ts\<close> skips with a
  warning: not blank, and not decodable.
\<close>

definition lines_of :: "'u world \<Rightarrow> path \<Rightarrow> string list" where
  "lines_of w p = (case files w p of None \<Rightarrow> [] | Some c \<Rightarrow> split_lines c)"

definition skipped :: "(string \<Rightarrow> json option) \<Rightarrow> string list \<Rightarrow> string list" where
  "skipped parse ls = filter (\<lambda>l. trim l \<noteq> [] \<and> parse l = None) ls"


section \<open>What a rewrite writes\<close>

text \<open>
  The four arrow functions of the mutations have one shape: decide from the record and the
  caller's callbacks what to write (\<open>Some\<close> a record, or \<open>None\<close> to leave the record out)
  and pass it to \<open>tmpFile.add\<close>. \<open>write_step\<close> is that shape and the four \<open>_step\<close>
  functions are the decisions; the lemmas \<open>updateWhere_onLine_step\<close> and its siblings
  show them equal to the arrow functions as written in the source.
\<close>

definition write_step ::
  "(json \<Rightarrow> string) \<Rightarrow> path \<Rightarrow> (json, json option, 'u) callback \<Rightarrow> json \<Rightarrow> (bool, 'u) io" where
  "write_step stringify tmpPath step line =
     bnd (call step line) (\<lambda>out.
       case out of
         None \<Rightarrow> ret False
       | Some r \<Rightarrow> bnd (jsonlFile_add stringify tmpPath r) (\<lambda>_. ret False))"

definition updateWhere_step ::
  "(json \<Rightarrow> string \<Rightarrow> jsval) \<Rightarrow> string \<Rightarrow> jsval \<Rightarrow> (json, json, 'u) callback
     \<Rightarrow> (json, json option, 'u) callback" where
  "updateWhere_step builtin attribute v updateFn line u =
     (case js_get builtin line attribute of
        Inl e \<Rightarrow> (Inl e, u)
      | Inr x \<Rightarrow>
          if strict_eq x v
          then (case updateFn line u of (Inl e, u') \<Rightarrow> (Inl e, u') | (Inr r, u') \<Rightarrow> (Inr (Some r), u'))
          else (Inr (Some line), u))"

definition updateMatch_step ::
  "(json, bool, 'u) callback \<Rightarrow> (json, json, 'u) callback \<Rightarrow> (json, json option, 'u) callback" where
  "updateMatch_step matchFn updateFn line u =
     (case matchFn line u of
        (Inl e, u') \<Rightarrow> (Inl e, u')
      | (Inr m, u') \<Rightarrow>
          if m
          then (case updateFn line u' of (Inl e, u'') \<Rightarrow> (Inl e, u'') | (Inr r, u'') \<Rightarrow> (Inr (Some r), u''))
          else (Inr (Some line), u'))"

definition deleteWhere_step ::
  "(json \<Rightarrow> string \<Rightarrow> jsval) \<Rightarrow> string \<Rightarrow> jsval \<Rightarrow> (json, json option, 'u) callback" where
  "deleteWhere_step builtin attribute v line u =
     (case js_get builtin line attribute of
        Inl e \<Rightarrow> (Inl e, u)
      | Inr x \<Rightarrow> (Inr (if \<not> strict_eq x v then Some line else None), u))"

definition deleteMatch_step :: "(json, bool, 'u) callback \<Rightarrow> (json, json option, 'u) callback" where
  "deleteMatch_step matchFn line u =
     (case matchFn line u of
        (Inl e, u') \<Rightarrow> (Inl e, u')
      | (Inr m, u') \<Rightarrow> (Inr (if \<not> m then Some line else None), u'))"

text \<open>The shape common to the four methods: fill the scratch file, then rename it.\<close>

definition copy_rewrite ::
  "(string \<Rightarrow> json option) \<Rightarrow> path \<Rightarrow> path \<Rightarrow> (path \<Rightarrow> json \<Rightarrow> (bool, 'u) io) \<Rightarrow> (unit, 'u) io" where
  "copy_rewrite parse tempFilePath path onLine =
     temporaryFileTask tempFilePath (\<lambda>tmpPath.
       bnd (jsonlFile_read parse path (onLine tmpPath)) (\<lambda>_. rename tmpPath path))"

definition same_except :: "path \<Rightarrow> 'u world \<Rightarrow> 'u world \<Rightarrow> bool" where
  "same_except t w' w \<longleftrightarrow> (\<forall>q. q \<noteq> t \<longrightarrow> files w' q = files w q)"

text \<open>
  \<open>lines.join("\n")\<close>, and the scratch file after the records \<open>acc\<close> were added to it:
  absent until the first \<open>add\<close>.
\<close>

fun join_lines :: "string list \<Rightarrow> string" where
  "join_lines [] = []"
| "join_lines [l] = l"
| "join_lines (l # l' # ls) = l @ [CHR 0x0A] @ join_lines (l' # ls)"

definition scratch :: "(json \<Rightarrow> string) \<Rightarrow> json list \<Rightarrow> string option" where
  "scratch stringify acc = (if acc = [] then None else Some (join_lines (map stringify acc)))"

text \<open>
  The records a rewrite passes to \<open>tmpFile.add\<close>, in order: the decisions of the step over
  the records of the source file, ending at the first error; \<open>add\<close> rejects a value that
  is not a plain object.
\<close>

fun rewritten :: "(json, json option, 'u) callback \<Rightarrow> json list \<Rightarrow> 'u \<Rightarrow> (error + json list) \<times> 'u" where
  "rewritten step [] u = (Inr [], u)"
| "rewritten step (r # rs) u =
     (case step r u of
        (Inl e, u') \<Rightarrow> (Inl e, u')
      | (Inr None, u') \<Rightarrow> rewritten step rs u'
      | (Inr (Some x), u') \<Rightarrow>
          if \<not> isSingleJson x then (Inl InvalidInput, u')
          else (case rewritten step rs u' of
                  (Inl e, u'') \<Rightarrow> (Inl e, u'')
                | (Inr xs, u'') \<Rightarrow> (Inr (x # xs), u'')))"


text \<open>
  A method is atomic by rename: when it fails, the source file is what it was; when it
  succeeds, the traversal that fills the scratch file succeeded, the source file holds
  what the scratch file held at the end of the traversal, and the scratch path is gone.
\<close>

definition atomic_rewrite :: "path \<Rightarrow> path \<Rightarrow> (unit, 'u) io \<Rightarrow> (unit, 'u) io \<Rightarrow> 'u world \<Rightarrow> bool" where
  "atomic_rewrite tmpPath path method traversal w \<longleftrightarrow>
     (\<forall>e. fst (method w) = Inl e \<longrightarrow> files (snd (method w)) path = files w path)
     \<and> (fst (method w) = Inr () \<longrightarrow>
          fst (traversal w) = Inr ()
          \<and> files (snd (traversal w)) tmpPath \<noteq> None
          \<and> files (snd (method w)) path = files (snd (traversal w)) tmpPath
          \<and> files (snd (method w)) tmpPath = None)"

text \<open>
  What a method leaves in the files, from the records it writes: on an error, or when
  nothing was written (there is then no scratch file to rename), the files are what they
  were; otherwise the source file holds the written records, encoded and joined by newlines.
\<close>

definition writes_records ::
  "(json \<Rightarrow> string) \<Rightarrow> path \<Rightarrow> (json, json option, 'u) callback \<Rightarrow> json list \<Rightarrow> (unit, 'u) io
     \<Rightarrow> 'u world \<Rightarrow> bool" where
  "writes_records stringify path step recs method w \<longleftrightarrow>
     (case rewritten step recs (user w) of
        (Inl e, u') \<Rightarrow> fst (method w) = Inl e \<and> files (snd (method w)) = files w
      | (Inr outs, u') \<Rightarrow>
          if outs = [] then fst (method w) = Inl ENOENT \<and> files (snd (method w)) = files w
          else fst (method w) = Inr ()
             \<and> files (snd (method w)) = (files w)(path \<mapsto> join_lines (map stringify outs)))"

definition is_a1 :: "(json, bool, 'u) callback" where
  "is_a1 = pure_cb (\<lambda>r. r = rec_a1)"


section \<open>Basic facts\<close>

lemma bnd_ret [simp]: "bnd (ret a) f = f a"
  by (rule ext) (simp add: bnd_def ret_def)

lemma bnd_throw [simp]: "bnd (throw e) f = throw e"
  by (rule ext) (simp add: bnd_def throw_def)

lemma bnd_Inr: "m w = (Inr a, w') \<Longrightarrow> bnd m f w = f a w'"
  by (simp add: bnd_def)

lemma bnd_Inl: "m w = (Inl e, w') \<Longrightarrow> bnd m f w = (Inl e, w')"
  by (simp add: bnd_def)

lemma safePathExists_bnd [simp]: "bnd (safePathExists p) f w = f (files w p \<noteq> None) w"
  by (simp add: bnd_def safePathExists_def ret_def)

lemma drop_with_local [simp]: "drop_local (with_local s w) = w"
  by (simp add: drop_local_def with_local_def)

lemma local_with_local [simp]: "local_of (with_local s w) = s"
  by (simp add: local_of_def with_local_def)

lemma files_with_local [simp]: "files (with_local s w) = files w"
  by (simp add: with_local_def)

section \<open>Reading a path that is not there\<close>

text \<open>
  C7, as the code has it. On a path that holds no file, \<open>read\<close> and \<open>readLineByLine\<close> of
  \<open>lib/jsonl.ts\<close>, its \<open>count\<close>, and the facade's \<open>update\<close> and \<open>delete\<close> built on
  \<open>read\<close> return without error and leave the world as it was: the files, the console
  and the caller's state, so no callback ran (take a \<open>traced\<close> callback: its log is
  part of the caller's state).
\<close>

theorem missing_file_reads_empty:
  assumes "files w filePath = None"
  shows "jsonl_read parse filePath onBatch batchSize w = (Inr (), w)
       \<and> jsonl_readLineByLine parse filePath onLine w = (Inr (), w)
       \<and> jsonl_count parse filePath w = (Inr 0, w)
       \<and> jsonlDir_update parse filePath matchFn updateFn w = (Inr [], w)
       \<and> jsonlDir_delete parse filePath matchFn w = (Inr [], w)"
  using assms
  by (simp add: jsonl_read_def jsonl_readLineByLine_def jsonl_count_def jsonlDir_update_def
      jsonlDir_delete_def closure_def ret_def)

theorem missing_file_reads_empty_witness:
  "files no_files ''users.jsonl'' = None
   \<and> jsonl_read example_parse ''users.jsonl'' keep_going 2 no_files = (Inr (), no_files)
   \<and> jsonl_readLineByLine example_parse ''users.jsonl'' keep_going no_files = (Inr (), no_files)"
  using missing_file_reads_empty [of no_files "''users.jsonl''" example_parse keep_going 2 keep_going]
  by (simp add: no_files_def world_of_def)

text \<open>
  C7 as stated fails on \<open>read\<close> of \<open>jsonlFile.js\<close>, which opens the stream without asking
  whether the path exists: the traversal ends with ENOENT.
\<close>

theorem jsonlFile_read_missing_file_fails:
  "fst (jsonlFile_read example_parse ''users.jsonl'' (call keep_going) no_files) = Inl ENOENT"
  by (simp add: jsonlFile_read_def getRl_def bnd_def no_files_def world_of_def throw_def)

section \<open>Facts about lines and decoding\<close>

lemma trim_plain: "space_at_start s = 0 \<Longrightarrow> space_at_end s = 0 \<Longrightarrow> trim s = s"
  by (simp add: trim_def trimStart.simps [of s] trimEnd.simps [of s])

lemma trim_Nil [simp]: "trim [] = []"
  by (rule trim_plain) (simp_all add: space_at_start_def space_at_end_def white_space_def)

lemma substring_Nil [simp]: "substring n [] = []"
  by (simp add: substring.simps)

lemma decoded_Nil [simp]: "decoded parse [] = []"
  by (simp add: decoded_def)

lemma decoded_Cons_Some:
  "trim l \<noteq> [] \<Longrightarrow> parse l = Some v \<Longrightarrow> decoded parse (l # ls) = v # decoded parse ls"
  by (simp add: decoded_def)

lemma decoded_Cons_None:
  "parse l = None \<Longrightarrow> decoded parse (l # ls) = decoded parse ls"
  by (simp add: decoded_def)

lemma decoded_Cons_blank:
  "trim l = [] \<Longrightarrow> decoded parse (l # ls) = decoded parse ls"
  by (simp add: decoded_def)

lemma decoded_all:
  "\<forall>l\<in>set ls. trim l \<noteq> [] \<and> parse l \<noteq> None \<Longrightarrow> decoded parse ls = map (\<lambda>l. the (parse l)) ls"
  by (induction ls) (auto simp: decoded_Cons_Some)

lemma getRl_bnd:
  "bnd (getRl p) f w = (case files w p of None \<Rightarrow> (Inl ENOENT, w) | Some c \<Rightarrow> f (split_lines c) w)"
  by (simp add: bnd_def getRl_def throw_def ret_def split: option.splits)

lemma JSON_parse_Some: "parse s = Some v \<Longrightarrow> JSON_parse parse s w = (Inr v, w)"
  by (simp add: JSON_parse_def ret_def)

lemma JSON_parse_None: "parse s = None \<Longrightarrow> JSON_parse parse s w = (Inl SyntaxError, w)"
  by (simp add: JSON_parse_def throw_def)

lemma split_two_lines: "split_lines two_lines = [line_a1, line_a2]"
  by (simp add: split_lines_def two_lines_def line_a1_def line_a2_def)

lemma trim_line_a1: "trim line_a1 = line_a1"
  by (rule trim_plain)
     (simp_all add: space_at_start_def space_at_end_def white_space_def line_a1_def
       suffix_to_prefix)

lemma trim_line_a2: "trim line_a2 = line_a2"
  by (rule trim_plain)
     (simp_all add: space_at_start_def space_at_end_def white_space_def line_a2_def
       suffix_to_prefix)

lemma example_parse_simps:
  "example_parse line_a1 = Some rec_a1" "example_parse line_a2 = Some rec_a2"
  "example_parse line_b1 = Some rec_b1" "example_parse [] = None"
  by (simp_all add: example_parse_def line_a1_def line_a2_def line_b1_def)

lemma split_mixed_lines: "split_lines mixed_lines = [line_a1, line_b1]"
  by (simp add: split_lines_def mixed_lines_def line_a1_def line_b1_def)

lemma substring_line_a1: "substring 100 line_a1 = line_a1"
  by (simp add: line_a1_def substring.simps utf8_width_def)

lemma substring_line_a2: "substring 100 line_a2 = line_a2"
  by (simp add: line_a2_def substring.simps utf8_width_def)

lemma trim_line_b1: "trim line_b1 = line_b1"
  by (rule trim_plain)
     (simp_all add: space_at_start_def space_at_end_def white_space_def line_b1_def
       suffix_to_prefix)

section \<open>Errors thrown by a callback\<close>

text \<open>
  C4 at a failing input. The file holds two records and the line callback throws on each
  call. \<open>readLineByLine\<close> of \<open>lib/jsonl.ts\<close> returns normally: its \<open>catch\<close> takes the
  callback's error for a decoding error, prints the warning for an invalid line and goes
  on to the next record, where the callback is called again.
\<close>

theorem readLineByLine_swallows_callback_error:
  "jsonl_readLineByLine example_parse ''users.jsonl'' (traced always_throws) (world_of users_fs ((), []))
   = (Inr (),
      \<lparr>files = users_fs,
       console = [''Warning: Skipping invalid JSON line: '' @ line_a1 @ ''...'',
                  ''Warning: Skipping invalid JSON line: '' @ line_a2 @ ''...''],
       user = ((), [(rec_a1, Inl (Thrown ''boom'')), (rec_a2, Inl (Thrown ''boom''))])\<rparr>)"
  by (simp add: jsonl_readLineByLine_def world_of_def users_fs_def getRl_def bnd_def ret_def
      safePathExists_def split_two_lines trim_line_a1 trim_line_a2 example_parse_simps call_def
      traced_def always_throws_def warn_def warning_def substring_line_a1 substring_line_a2)
     (simp add: line_a1_def line_a2_def)

section \<open>The first and the last record\<close>








section \<open>Looking for \<open>undefined\<close>\<close>

lemma jsonlFile_read_loop_Some:
  "parse line = Some v \<Longrightarrow>
   jsonlFile_read_loop parse onLine (line # rest) w =
     bnd (onLine v) (\<lambda>canEnd. if canEnd then ret () else jsonlFile_read_loop parse onLine rest) w"
  by (simp add: bnd_Inr [OF JSON_parse_Some])

lemma jsonlFile_read_loop_None:
  "parse line = None \<Longrightarrow> jsonlFile_read_loop parse onLine (line # rest) w = (Inl SyntaxError, w)"
  by (simp add: bnd_Inl [OF JSON_parse_None])

lemma strict_eq_Undefined [simp]: "strict_eq x Undefined = (x = Undefined)"
  by (cases "(x, Undefined)" rule: strict_eq.cases) auto

lemma lacks_iff: "lacks a (JObj kvs) = (map_of kvs a = None)"
  by (simp add: dom_map_of_conv_image_fst [symmetric] domIff)

lemma js_get_lacks:
  "builtin (JObj kvs) a = Undefined \<Longrightarrow> js_get builtin (JObj kvs) a = Inr x \<Longrightarrow>
   (x = Undefined) = lacks a (JObj kvs)"
  by (auto simp: lacks_iff simp del: lacks.simps split: option.splits)

lemma findWhere_onLine_obj:
  "builtin (JObj kvs) a = Undefined \<Longrightarrow>
   findWhere_onLine builtin a Undefined (JObj kvs) w =
     (if lacks a (JObj kvs) then (Inr True, w\<lparr>user := (fst (user w), Val (JObj kvs))\<rparr>)
      else (Inr False, w))"
  by (auto simp: findWhere_onLine_def set_local_def ret_def bnd_def lacks_iff
      simp del: lacks.simps split: option.splits)

text \<open>
  The lines that \<open>findWhere(attribute, undefined)\<close> reads are those with no line before
  them that decodes to a record lacking the attribute: at such a line it stops.
\<close>

lemma findWhere_loop:
  assumes "\<forall>kvs. builtin (JObj kvs) a = Undefined"
  shows "\<forall>i<length ls. (\<forall>j<i. \<forall>r. parse (ls ! j) = Some r \<longrightarrow> \<not> lacks a r) \<longrightarrow>
           trim (ls ! i) \<noteq> [] \<and> (\<exists>kvs. parse (ls ! i) = Some (JObj kvs)) \<Longrightarrow>
   jsonlFile_read_loop parse (findWhere_onLine builtin a Undefined) ls w =
     (Inr (), case List.find (lacks a) (decoded parse ls) of
                None \<Rightarrow> w
              | Some r \<Rightarrow> w\<lparr>user := (fst (user w), Val r)\<rparr>)"
proof (induction ls)
  case Nil
  then show ?case by (simp add: ret_def)
next
  case (Cons l ls)
  from Cons.prems [rule_format, of 0] obtain kvs
    where l: "trim l \<noteq> []" "parse l = Some (JObj kvs)"
    by auto
  note b = assms [rule_format, of kvs]
  show ?case
  proof (cases "lacks a (JObj kvs)")
    case True
    then show ?thesis
      by (simp add: jsonlFile_read_loop_Some [of parse l "JObj kvs", OF l(2)]
          decoded_Cons_Some [of l parse "JObj kvs", OF l]
          bnd_def findWhere_onLine_obj [where builtin = builtin, OF b] ret_def
          del: jsonlFile_read_loop.simps lacks.simps)
  next
    case False
    have rest: "\<forall>i<length ls. (\<forall>j<i. \<forall>r. parse (ls ! j) = Some r \<longrightarrow> \<not> lacks a r) \<longrightarrow>
           trim (ls ! i) \<noteq> [] \<and> (\<exists>kvs. parse (ls ! i) = Some (JObj kvs))"
    proof (intro allI impI)
      fix i
      assume i: "i < length ls"
        and before: "\<forall>j<i. \<forall>r. parse (ls ! j) = Some r \<longrightarrow> \<not> lacks a r"
      have "\<forall>j<Suc i. \<forall>r. parse ((l # ls) ! j) = Some r \<longrightarrow> \<not> lacks a r"
      proof (intro allI impI)
        fix j r
        assume "j < Suc i" and "parse ((l # ls) ! j) = Some r"
        then show "\<not> lacks a r"
          using before False l(2) by (cases j) auto
      qed
      with Cons.prems [rule_format, of "Suc i"] i
      show "trim (ls ! i) \<noteq> [] \<and> (\<exists>kvs. parse (ls ! i) = Some (JObj kvs))"
        by simp
    qed
    show ?thesis
      using False
      by (simp add: jsonlFile_read_loop_Some [of parse l "JObj kvs", OF l(2)]
          decoded_Cons_Some [of l parse "JObj kvs", OF l]
          bnd_def findWhere_onLine_obj [where builtin = builtin, OF b] ret_def Cons.IH [OF rest]
          del: jsonlFile_read_loop.simps lacks.simps)
  qed
qed

lemma drop_local_user [simp]: "drop_local (w\<lparr>user := (fst (user w), x)\<rparr>) = drop_local w"
  by (simp add: drop_local_def)

lemma local_of_user [simp]: "local_of (w\<lparr>user := (u, x)\<rparr>) = x"
  by (simp add: local_of_def)

lemma example_builtin_a: "example_builtin v ''a'' = Undefined"
  by (simp add: example_builtin_def object_prototype_def)

text \<open>
  C10, as the code has it. Take a name \<open>attribute\<close> that objects do not inherit (the
  runtime's lookup finds nothing under it on an object that has no own property of that
  name), and a file that exists. \<open>findWhere\<close> reads the lines of the file one by one and
  stops at the first that decodes to a record lacking the attribute; let each line it
  reads, that one included, be not blank and decode to an object. Then
  \<open>findWhere(attribute, undefined)\<close> returns the first decoded record of the file that
  lacks the attribute, and \<open>undefined\<close> if there is none; so the answer is \<open>undefined\<close>
  exactly when no record lacks the attribute. The match itself: reading such an attribute
  of an object gives a value strictly equal to \<open>undefined\<close> exactly when the object lacks it.
\<close>

theorem findWhere_undefined_finds_first_record_lacking_attribute:
  assumes "files w path = Some c"
    and "\<forall>kvs. builtin (JObj kvs) attribute = Undefined"
    and "\<forall>i<length (split_lines c).
           (\<forall>j<i. \<forall>r. parse (split_lines c ! j) = Some r \<longrightarrow> \<not> lacks attribute r) \<longrightarrow>
           trim (split_lines c ! i) \<noteq> [] \<and> (\<exists>kvs. parse (split_lines c ! i) = Some (JObj kvs))"
  shows "jsonlFile_findWhere parse builtin path attribute Undefined w =
           (Inr (case List.find (lacks attribute) (decoded parse (split_lines c)) of
                   None \<Rightarrow> Undefined | Some r \<Rightarrow> Val r), w)
       \<and> (fst (jsonlFile_findWhere parse builtin path attribute Undefined w) = Inr Undefined
            \<longleftrightarrow> (\<forall>r \<in> set (decoded parse (split_lines c)). \<not> lacks attribute r))
       \<and> (\<forall>kvs x. js_get builtin (JObj kvs) attribute = Inr x \<longrightarrow>
            strict_eq x Undefined = lacks attribute (JObj kvs))"
proof -
  let ?recs = "decoded parse (split_lines c)"
  have run: "jsonlFile_findWhere parse builtin path attribute Undefined w =
           (Inr (case List.find (lacks attribute) ?recs of None \<Rightarrow> Undefined | Some r \<Rightarrow> Val r), w)"
    using assms(1)
    by (simp add: jsonlFile_findWhere_def closure_def jsonlFile_read_def getRl_bnd
        findWhere_loop [where builtin = builtin and parse = parse, OF assms(2,3)] split: option.splits)
  have none: "(List.find (lacks attribute) ?recs = None) = (\<forall>r \<in> set ?recs. \<not> lacks attribute r)"
    by (auto simp: find_None_iff)
  have iff: "fst (jsonlFile_findWhere parse builtin path attribute Undefined w) = Inr Undefined
            \<longleftrightarrow> (\<forall>r \<in> set ?recs. \<not> lacks attribute r)"
    unfolding run none [symmetric] by (simp split: option.splits)
  have m: "\<forall>kvs x. js_get builtin (JObj kvs) attribute = Inr x \<longrightarrow>
            strict_eq x Undefined = lacks attribute (JObj kvs)"
  proof (intro allI impI)
    fix kvs x
    assume "js_get builtin (JObj kvs) attribute = Inr x"
    moreover have "builtin (JObj kvs) attribute = Undefined"
      using assms(2) by simp
    ultimately show "strict_eq x Undefined = lacks attribute (JObj kvs)"
      using js_get_lacks [where builtin = builtin and kvs = kvs and a = attribute and x = x]
      by (simp del: js_get.simps lacks.simps)
  qed
  from run iff m show ?thesis by blast
qed

theorem findWhere_undefined_finds_first_record_lacking_attribute_witness:
  "files (world_of mixed_fs ()) ''users.jsonl'' = Some mixed_lines
   \<and> example_builtin rec_a1 ''a'' = Undefined
   \<and> decoded example_parse (split_lines mixed_lines) = [rec_a1, rec_b1]
   \<and> jsonlFile_findWhere example_parse example_builtin ''users.jsonl'' ''a'' Undefined
         (world_of mixed_fs ())
       = (Inr (Val rec_b1), world_of mixed_fs ())"
proof -
  have f: "files (world_of mixed_fs ()) ''users.jsonl'' = Some mixed_lines"
    by (simp add: world_of_def mixed_fs_def)
  have b: "\<forall>kvs. example_builtin (JObj kvs) ''a'' = Undefined"
    by (simp add: example_builtin_a)
  have "\<forall>i<length [line_a1, line_b1].
          trim ([line_a1, line_b1] ! i) \<noteq> []
          \<and> (\<exists>kvs. example_parse ([line_a1, line_b1] ! i) = Some (JObj kvs))"
    by (simp add: All_less_Suc trim_line_a1 trim_line_b1 example_parse_simps rec_a1_def
        rec_b1_def)
       (simp add: line_a1_def line_b1_def)
  then have ok: "\<forall>i<length (split_lines mixed_lines).
           (\<forall>j<i. \<forall>r. example_parse (split_lines mixed_lines ! j) = Some r \<longrightarrow> \<not> lacks ''a'' r) \<longrightarrow>
           trim (split_lines mixed_lines ! i) \<noteq> []
           \<and> (\<exists>kvs. example_parse (split_lines mixed_lines ! i) = Some (JObj kvs))"
    by (simp add: split_mixed_lines)
  have d: "decoded example_parse (split_lines mixed_lines) = [rec_a1, rec_b1]"
    by (simp add: split_mixed_lines decoded_def trim_line_a1 trim_line_b1 example_parse_simps)
      (simp add: line_a1_def line_b1_def)
  show ?thesis
    using findWhere_undefined_finds_first_record_lacking_attribute
        [where parse = example_parse and builtin = example_builtin and attribute = "''a''",
         OF f b ok] f d
    by (simp add: rec_a1_def rec_b1_def example_builtin_a)
qed

text \<open>
  C10 as stated fails. Every object inherits a member \<open>toString\<close>: both records of the
  file below lack an attribute of that name, yet reading it gives the inherited function,
  which is not \<open>undefined\<close>, and \<open>findWhere("toString", undefined)\<close> returns \<open>undefined\<close>.
  On a file whose first line does not decode, \<open>findWhere\<close> fails with a SyntaxError
  although the record on the second line lacks the attribute; on a path that holds no
  file it fails with ENOENT.
\<close>

theorem findWhere_misses_a_record_lacking_the_attribute:
  "jsonlFile_findWhere example_parse example_builtin ''users.jsonl'' ''toString'' Undefined
       (world_of users_fs ())
     = (Inr Undefined, world_of users_fs ())
   \<and> records_of example_parse (world_of users_fs ()) ''users.jsonl'' = [rec_a1, rec_a2]
   \<and> lacks ''toString'' rec_a1
   \<and> fst (jsonlFile_findWhere example_parse example_builtin ''users.jsonl'' ''b'' Undefined
            (world_of bad_fs ()))
       = Inl SyntaxError
   \<and> records_of example_parse (world_of bad_fs ()) ''users.jsonl'' = [rec_a1]
   \<and> lacks ''b'' rec_a1
   \<and> fst (jsonlFile_findWhere example_parse example_builtin ''users.jsonl'' ''b'' Undefined
            no_files)
       = Inl ENOENT"
proof -
  have l: "split_lines bad_then_record = [''not-json'', line_a1]"
    by (simp add: split_lines_def bad_then_record_def line_a1_def)
  have p: "example_parse ''not-json'' = None"
    by (simp add: example_parse_def line_a1_def line_a2_def line_b1_def)
  have ne: "line_a1 \<noteq> []" "line_a2 \<noteq> []"
    by (simp_all add: line_a1_def line_a2_def)
  have t: "example_builtin v ''toString'' = Native ''toString''" for v
    by (simp add: example_builtin_def object_prototype_def)
  have loop: "jsonlFile_read_loop example_parse
                (findWhere_onLine example_builtin ''toString'' Undefined) [line_a1, line_a2] v
              = (Inr (), v)" for v :: "(unit \<times> jsval) world"
    by (simp add: jsonlFile_read_loop_Some [where parse = example_parse, OF example_parse_simps(1)]
        jsonlFile_read_loop_Some [where parse = example_parse, OF example_parse_simps(2)]
        findWhere_onLine_def rec_a1_def rec_a2_def t bnd_def ret_def
        del: jsonlFile_read_loop.simps(2))
  have 1: "jsonlFile_findWhere example_parse example_builtin ''users.jsonl'' ''toString'' Undefined
       (world_of users_fs ())
     = (Inr Undefined, world_of users_fs ())"
    by (simp add: jsonlFile_findWhere_def closure_def jsonlFile_read_def getRl_bnd world_of_def
        users_fs_def split_two_lines loop with_local_def drop_local_def local_of_def
        del: jsonlFile_read_loop.simps(2))
  have 2: "records_of example_parse (world_of users_fs ()) ''users.jsonl'' = [rec_a1, rec_a2]"
    using ne
    by (simp add: records_of_def world_of_def users_fs_def split_two_lines decoded_Cons_Some
        trim_line_a1 trim_line_a2 example_parse_simps)
  have 3: "lacks ''toString'' rec_a1" "lacks ''b'' rec_a1"
    by (simp_all add: rec_a1_def)
  have 4: "fst (jsonlFile_findWhere example_parse example_builtin ''users.jsonl'' ''b'' Undefined
            (world_of bad_fs ()))
       = Inl SyntaxError"
    by (simp add: jsonlFile_findWhere_def closure_def jsonlFile_read_def getRl_bnd world_of_def
        bad_fs_def l jsonlFile_read_loop_None [where parse = example_parse, OF p]
        with_local_def
        del: jsonlFile_read_loop.simps(2))
  have 5: "records_of example_parse (world_of bad_fs ()) ''users.jsonl'' = [rec_a1]"
    using ne
    by (simp add: records_of_def world_of_def bad_fs_def l decoded_Cons_None [where parse = example_parse, OF p]
        decoded_Cons_Some trim_line_a1 example_parse_simps)
  have 6: "fst (jsonlFile_findWhere example_parse example_builtin ''users.jsonl'' ''b'' Undefined
            no_files)
       = Inl ENOENT"
    by (simp add: jsonlFile_findWhere_def closure_def jsonlFile_read_def getRl_bnd no_files_def
        world_of_def with_local_def)
  from 1 2 3 4 5 6 show ?thesis
    by simp
qed

section \<open>The batch traversal of \<open>lib/jsonl.ts\<close>\<close>

lemma jsonl_read_loop_blank:
  "trim line = [] \<Longrightarrow>
   jsonl_read_loop parse onBatch k (line # rest) batch w = jsonl_read_loop parse onBatch k rest batch w"
  by simp

lemma jsonl_read_loop_bad:
  "trim line \<noteq> [] \<Longrightarrow> parse line = None \<Longrightarrow>
   jsonl_read_loop parse onBatch k (line # rest) batch w
     = jsonl_read_loop parse onBatch k rest batch (warn line w)"
  by simp

lemma jsonl_read_loop_full:
  "trim line \<noteq> [] \<Longrightarrow> parse line = Some v \<Longrightarrow> Suc (length batch) = k \<Longrightarrow>
   jsonl_read_loop parse onBatch k (line # rest) batch w
     = bnd (call onBatch (batch @ [v]))
         (\<lambda>canEnd. if canEnd then ret () else jsonl_read_loop parse onBatch k rest []) w"
  by simp

lemma jsonl_read_loop_more:
  "trim line \<noteq> [] \<Longrightarrow> parse line = Some v \<Longrightarrow> Suc (length batch) \<noteq> k \<Longrightarrow>
   jsonl_read_loop parse onBatch k (line # rest) batch w
     = jsonl_read_loop parse onBatch k rest (batch @ [v]) w"
  by simp

lemma jsonl_read_loop_Nil:
  "jsonl_read_loop parse onBatch k [] batch w =
     (if batch = [] then (Inr (), w)
      else case call onBatch batch w of (Inl e, w') \<Rightarrow> (Inl e, w') | (Inr c, w') \<Rightarrow> (Inr (), w'))"
  by (simp add: bnd_def ret_def split: prod.splits sum.splits)

lemma line_cases:
  obtains (blank) "trim line = []"
  | (bad) "trim line \<noteq> []" "parse line = None"
  | (ok) v where "trim line \<noteq> []" "parse line = Some v"
  by (cases "parse line") auto

lemma call_files: "files (snd (call cb x w)) = files w"
  by (simp add: call_def split: prod.splits)

lemma files_warn [simp]: "files (warn l w) = files w"
  by (simp add: warn_def)

lemma user_warn [simp]: "user (warn l w) = user w"
  by (simp add: warn_def)

lemma jsonl_read_loop_files:
  "files (snd (jsonl_read_loop parse onBatch k ls batch w)) = files w"
proof (induction ls arbitrary: batch w)
  case Nil
  obtain r w1 where c: "call onBatch batch w = (r, w1)"
    by (cases "call onBatch batch w")
  have "files w1 = files w"
    using call_files [of onBatch batch w] c by simp
  then show ?case
    using c by (simp add: bnd_def ret_def split: sum.splits)
next
  case (Cons line rest)
  show ?case
  proof (cases rule: line_cases [where line = line and parse = parse])
    case blank
    show ?thesis by (simp only: jsonl_read_loop_blank [where parse = parse, OF blank] Cons.IH)
  next
    case bad
    show ?thesis by (simp only: jsonl_read_loop_bad [where parse = parse, OF bad] Cons.IH files_warn)
  next
    case (ok v)
    show ?thesis
    proof (cases "Suc (length batch) = k")
      case False
      show ?thesis by (simp only: jsonl_read_loop_more [where parse = parse, OF ok False] Cons.IH)
    next
      case True
      obtain r w1 where c: "call onBatch (batch @ [v]) w = (r, w1)"
        by (cases "call onBatch (batch @ [v]) w")
      have f1: "files w1 = files w"
        using call_files [of onBatch "batch @ [v]" w] c by simp
      show ?thesis
        using c f1 Cons.IH [of "[]" w1]
        by (simp only: jsonl_read_loop_full [where parse = parse, OF ok True]) (simp add: bnd_def ret_def split: sum.splits)
    qed
  qed
qed

lemma jsonl_read_files: "files (snd (jsonl_read parse p onBatch k w)) = files w"
  by (simp add: jsonl_read_def getRl_bnd ret_def jsonl_read_loop_files split: option.splits)

lemma closure_files:
  "(\<And>w1. files (snd (m w1)) = files w1) \<Longrightarrow> files (snd (closure s m res w)) = files w"
proof -
  assume a: "\<And>w1. files (snd (m w1)) = files w1"
  obtain r w' where m: "m (with_local s w) = (r, w')"
    by (cases "m (with_local s w)")
  have "files w' = files w"
    using a [of "with_local s w"] m by simp
  then show ?thesis
    by (simp add: closure_def m drop_local_def split: sum.splits)
qed

declare jsonl_read_loop.simps(2) [simp del]

lemma call_const:
  "(\<And>b u. cb b u = (Inr False, g b u)) \<Longrightarrow> call cb b w = (Inr False, w\<lparr>user := g b (user w)\<rparr>)"
  by (simp add: call_def)

lemma jsonl_read_loop_accumulate:
  assumes cb: "\<And>b u. cb b u = (Inr False, g b u)"
    and g0: "\<And>u. g [] u = u"
    and gapp: "\<And>xs ys u. g (xs @ ys) u = g ys (g xs u)"
  shows "fst (jsonl_read_loop parse cb k ls batch w) = Inr ()
       \<and> user (snd (jsonl_read_loop parse cb k ls batch w)) = g (batch @ decoded parse ls) (user w)"
proof (induction ls arbitrary: batch w)
  case Nil
  show ?case
    by (simp add: call_const [of cb g, OF cb] bnd_def ret_def g0)
next
  case (Cons line rest)
  show ?case
  proof (cases rule: line_cases [where line = line and parse = parse])
    case blank
    show ?thesis
      by (simp only: jsonl_read_loop_blank [where parse = parse, OF blank] Cons.IH
          decoded_Cons_blank [where parse = parse, OF blank])
  next
    case bad
    show ?thesis
      by (simp only: jsonl_read_loop_bad [where parse = parse, OF bad] Cons.IH
          decoded_Cons_None [where parse = parse, OF bad(2)] user_warn)
  next
    case (ok v)
    have d: "decoded parse (line # rest) = v # decoded parse rest"
      using ok by (rule decoded_Cons_Some)
    show ?thesis
    proof (cases "Suc (length batch) = k")
      case False
      show ?thesis
        by (simp only: jsonl_read_loop_more [where parse = parse, OF ok False] Cons.IH d) simp
    next
      case True
      let ?w1 = "w\<lparr>user := g (batch @ [v]) (user w)\<rparr>"
      have c: "call cb (batch @ [v]) w = (Inr False, ?w1)"
        by (rule call_const [of cb g, OF cb])
      have step: "jsonl_read_loop parse cb k (line # rest) batch w = jsonl_read_loop parse cb k rest [] ?w1"
        by (simp only: jsonl_read_loop_full [where parse = parse, OF ok True]) (simp add: bnd_def c)
      have "g (decoded parse rest) (g (batch @ [v]) (user w)) = g ((batch @ [v]) @ decoded parse rest) (user w)"
        by (rule gapp [symmetric])
      then show ?thesis
        using Cons.IH [of "[]" ?w1] by (simp add: step d)
    qed
  qed
qed

lemma update_batch_pure:
  "update_batch (pure_cb p) (pure_cb f) b ua = (Inr False, (fst ua, snd ua @ map f (filter p b)))"
proof (induction b arbitrary: ua)
  case Nil
  show ?case by (cases ua) simp
next
  case (Cons x b)
  show ?case
    by (cases ua) (simp add: pure_cb_def Cons.IH [unfolded pure_cb_def])
qed

lemma delete_batch_pure:
  "delete_batch (pure_cb p) b ua = (Inr False, (fst ua, snd ua @ filter (\<lambda>r. \<not> p r) b))"
proof (induction b arbitrary: ua)
  case Nil
  show ?case by (cases ua) simp
next
  case (Cons x b)
  show ?case
    by (cases ua) (simp add: pure_cb_def Cons.IH [unfolded pure_cb_def])
qed

lemma closure_collect:
  assumes "fst (m (with_local s w)) = Inr () \<and> snd (user (snd (m (with_local s w)))) = xs"
  shows "fst (closure s m (\<lambda>x. x) w) = Inr xs"
proof -
  obtain r w' where m: "m (with_local s w) = (r, w')"
    by (cases "m (with_local s w)")
  have "r = Inr ()" "snd (user w') = xs"
    using assms m by simp_all
  then show ?thesis
    by (simp add: closure_def m local_of_def)
qed

lemma user_with_local [simp]: "user (with_local s w) = (user w, s)"
  by (simp add: with_local_def)

lemma jsonl_read_accumulate:
  assumes cb: "\<And>b u. cb b u = (Inr False, g b u)"
    and g0: "\<And>u. g [] u = u"
    and gapp: "\<And>xs ys u. g (xs @ ys) u = g ys (g xs u)"
  shows "fst (jsonl_read parse p cb k w) = Inr ()
       \<and> user (snd (jsonl_read parse p cb k w)) = g (records_of parse w p) (user w)"
proof (cases "files w p")
  case None
  then show ?thesis
    by (simp add: jsonl_read_def records_of_def ret_def g0)
next
  case (Some c)
  then show ?thesis
    using jsonl_read_loop_accumulate [of cb g parse k "split_lines c" "[]" w, OF cb g0 gapp]
    by (simp add: jsonl_read_def records_of_def getRl_bnd)
qed

lemma records_of_with_local [simp]: "records_of parse (with_local s w) p = records_of parse w p"
  by (simp add: records_of_def)

section \<open>The facade's \<open>update\<close> and \<open>delete\<close>\<close>

text \<open>
  C9. With a predicate \<open>p\<close> and a transformation \<open>f\<close> that compute from the record alone,
  \<open>update\<close> returns \<open>f\<close> of the records that satisfy \<open>p\<close> and \<open>delete\<close> returns the
  records that do not satisfy \<open>p\<close>, both in file order. Whatever the callbacks do
  (keep state, throw), the files are after the call what they were before it.
\<close>

theorem facade_update_delete_project:
  "fst (jsonlDir_update parse filePath (pure_cb p) (pure_cb f) w)
     = Inr (map f (filter p (records_of parse w filePath)))
   \<and> fst (jsonlDir_delete parse filePath (pure_cb p) w)
     = Inr (filter (\<lambda>r. \<not> p r) (records_of parse w filePath))
   \<and> files (snd (jsonlDir_update parse filePath matchFn updateFn w)) = files w
   \<and> files (snd (jsonlDir_delete parse filePath matchFn w)) = files w"
proof -
  have u: "fst (jsonlDir_update parse filePath (pure_cb p) (pure_cb f) w)
     = Inr (map f (filter p (records_of parse w filePath)))"
    unfolding jsonlDir_update_def
    by (rule closure_collect)
      (use jsonl_read_accumulate [of "update_batch (pure_cb p) (pure_cb f)"
            "\<lambda>b ua. (fst ua, snd ua @ map f (filter p b))" parse filePath 1000 "with_local [] w"]
        in \<open>simp add: update_batch_pure\<close>)
  have d: "fst (jsonlDir_delete parse filePath (pure_cb p) w)
     = Inr (filter (\<lambda>r. \<not> p r) (records_of parse w filePath))"
    unfolding jsonlDir_delete_def
    by (rule closure_collect)
      (use jsonl_read_accumulate [of "delete_batch (pure_cb p)"
            "\<lambda>b ua. (fst ua, snd ua @ filter (\<lambda>r. \<not> p r) b)" parse filePath 1000 "with_local [] w"]
        in \<open>simp add: delete_batch_pure\<close>)
  have fu: "files (snd (jsonlDir_update parse filePath matchFn updateFn w)) = files w"
    unfolding jsonlDir_update_def by (rule closure_files) (rule jsonl_read_files)
  have fd: "files (snd (jsonlDir_delete parse filePath matchFn w)) = files w"
    unfolding jsonlDir_delete_def by (rule closure_files) (rule jsonl_read_files)
  from u d fu fd show ?thesis by simp
qed

section \<open>Traversals as runs of the callback\<close>

lemma chunks_Nil [simp]: "chunks k [] = []"
  by (simp add: chunks.simps)

lemma chunks_short: "xs \<noteq> [] \<Longrightarrow> length xs \<le> k \<Longrightarrow> chunks k xs = [xs]"
  by (simp add: chunks.simps [of k xs])

lemma chunks_full: "0 < k \<Longrightarrow> length b = k \<Longrightarrow> chunks k (b @ xs) = b # chunks k xs"
  by (subst chunks.simps) auto

lemma concat_chunks: "concat (chunks k xs) = xs"
proof (induction k xs rule: chunks.induct)
  case (1 k xs)
  show ?case
  proof (cases "xs = [] \<or> k = 0")
    case True
    then show ?thesis by (auto simp: chunks.simps [of k xs])
  next
    case False
    then show ?thesis
      using "1.IH" by (simp add: chunks.simps [of k xs])
  qed
qed

lemma chunks_sizes: "0 < k \<Longrightarrow> b \<in> set (chunks k xs) \<Longrightarrow> 0 < length b \<and> length b \<le> k"
proof (induction k xs rule: chunks.induct)
  case (1 k xs)
  show ?case
  proof (cases "xs = []")
    case True
    with "1.prems" show ?thesis by simp
  next
    case False
    with "1.prems" have "b = take k xs \<or> b \<in> set (chunks k (drop k xs))"
      by (simp add: chunks.simps [of k xs])
    then show ?thesis
    proof
      assume "b = take k xs"
      with False "1.prems" show ?thesis by simp
    next
      assume "b \<in> set (chunks k (drop k xs))"
      with False "1.prems" "1.IH" show ?thesis by simp
    qed
  qed
qed

lemma chunks_butlast_full: "0 < k \<Longrightarrow> b \<in> set (butlast (chunks k xs)) \<Longrightarrow> length b = k"
proof (induction k xs rule: chunks.induct)
  case (1 k xs)
  show ?case
  proof (cases "xs = []")
    case True
    with "1.prems" show ?thesis by simp
  next
    case False
    have c: "chunks k xs = take k xs # chunks k (drop k xs)"
      using False "1.prems" by (simp add: chunks.simps [of k xs])
    show ?thesis
    proof (cases "chunks k (drop k xs) = []")
      case True
      with c "1.prems" show ?thesis by simp
    next
      case ne: False
      then have "drop k xs \<noteq> []"
        by auto
      then have len: "k < length xs"
        by simp
      from c ne "1.prems" have "b = take k xs \<or> b \<in> set (butlast (chunks k (drop k xs)))"
        by simp
      then show ?thesis
      proof
        assume "b = take k xs"
        with len show ?thesis by simp
      next
        assume "b \<in> set (butlast (chunks k (drop k xs)))"
        with False "1.prems" "1.IH" show ?thesis by simp
      qed
    qed
  qed
qed

lemma length_chunks: "0 < k \<Longrightarrow> length (chunks k xs) = (length xs + k - 1) div k"
proof (induction k xs rule: chunks.induct)
  case (1 k xs)
  show ?case
  proof (cases "xs = []")
    case True
    with "1.prems" show ?thesis by simp
  next
    case False
    have c: "chunks k xs = take k xs # chunks k (drop k xs)"
      using False "1.prems" by (simp add: chunks.simps [of k xs])
    have ih: "length (chunks k (drop k xs)) = (length xs - k + k - 1) div k"
      using "1.IH" False "1.prems" by simp
    show ?thesis
    proof (cases "length xs \<le> k")
      case True
      define n where "n = length xs"
      have "0 < n" "n \<le> k"
        using False True by (simp_all add: n_def)
      then have "k * 1 \<le> n + k - 1" "n + k - 1 < k * Suc 1"
        by arith+
      then have "k * 1 \<le> length xs + k - 1" "length xs + k - 1 < k * Suc 1"
        by (simp_all only: n_def)
      then have "(length xs + k - 1) div k = 1"
        by (rule div_nat_eqI)
      with c ih True "1.prems" show ?thesis by simp
    next
      case False
      then have "length xs + k - 1 = (length xs - k + k - 1) + k"
        by simp
      then have "(length xs + k - 1) div k = Suc ((length xs - k + k - 1) div k)"
        using "1.prems" by (metis div_add_self2 less_numeral_extra(3) Suc_eq_plus1)
      with c ih show ?thesis by simp
    qed
  qed
qed

lemma traced_apply: "cb x u = (r, u') \<Longrightarrow> traced cb x (u, lg) = (r, (u', lg @ [(x, r)]))"
  by (simp add: traced_def)

lemma feed_traced:
  "feed halt (traced cb) xs (u, lg0) =
     (fst (feed halt cb xs u), (snd (feed halt cb xs u), lg0 @ calls halt cb xs u))"
proof (induction xs arbitrary: u lg0)
  case Nil
  show ?case by simp
next
  case (Cons x xs)
  obtain r u' where c: "cb x u = (r, u')"
    by (cases "cb x u")
  show ?case
    by (simp add: traced_apply [of cb, OF c] c Cons.IH)
qed

lemma calls_prefix: "prefix (map fst (calls halt cb xs u)) xs"
proof (induction xs arbitrary: u)
  case Nil
  show ?case by simp
next
  case (Cons x xs)
  obtain r u' where c: "cb x u = (r, u')"
    by (cases "cb x u")
  show ?case
    using Cons.IH [of u'] by (simp add: c)
qed

lemma calls_butlast: "e \<in> set (butlast (calls halt cb xs u)) \<Longrightarrow> \<not> halt (snd e)"
proof (induction xs arbitrary: u)
  case Nil
  then show ?case by simp
next
  case (Cons x xs)
  obtain r u' where c: "cb x u = (r, u')"
    by (cases "cb x u")
  show ?case
  proof (cases "halt r")
    case True
    with Cons.prems c show ?thesis by simp
  next
    case False
    with Cons.prems c have "e = (x, r) \<or> e \<in> set (butlast (calls halt cb xs u'))"
      by (simp split: if_splits)
    with False Cons.IH show ?thesis by auto
  qed
qed

lemma calls_complete:
  "\<forall>e\<in>set (calls halt cb xs u). \<not> halt (snd e) \<Longrightarrow> map fst (calls halt cb xs u) = xs"
proof (induction xs arbitrary: u)
  case Nil
  show ?case by simp
next
  case (Cons x xs)
  obtain r u' where c: "cb x u = (r, u')"
    by (cases "cb x u")
  have nh: "\<not> halt r"
    using Cons.prems c by (auto split: if_splits)
  with Cons.prems c have "\<forall>e\<in>set (calls halt cb xs u'). \<not> halt (snd e)"
    by simp
  with Cons.IH nh c show ?case by simp
qed

lemma calls_halt_last:
  assumes "i < length (calls halt cb xs u)" and "halt (snd (calls halt cb xs u ! i))"
  shows "length (calls halt cb xs u) = Suc i"
proof (rule ccontr)
  assume "length (calls halt cb xs u) \<noteq> Suc i"
  with assms(1) have lt: "i < length (butlast (calls halt cb xs u))"
    by simp
  then have "butlast (calls halt cb xs u) ! i \<in> set (butlast (calls halt cb xs u))"
    by (rule nth_mem)
  then have "\<not> halt (snd (butlast (calls halt cb xs u) ! i))"
    by (rule calls_butlast)
  with lt assms(2) show False
    by (simp add: nth_butlast)
qed

lemma calls_keep_going:
  "(\<And>x u. fst (cb x u) = Inr False) \<Longrightarrow>
   calls stop_or_throw cb xs u = map (\<lambda>x. (x, Inr False)) xs"
proof (induction xs arbitrary: u)
  case Nil
  show ?case by simp
next
  case (Cons x xs)
  obtain r u' where c: "cb x u = (r, u')"
    by (cases "cb x u")
  have r: "r = Inr False"
    using Cons.prems [of x u] c by simp
  show ?case
    using Cons.IH [OF Cons.prems] by (simp add: c r stop_or_throw_def)
qed

lemma call_eq: "cb x (user w) = (r, u') \<Longrightarrow> call cb x w = (r, w\<lparr>user := u'\<rparr>)"
  by (simp add: call_def)

lemma outcome_simps [simp]:
  "outcome None = Inr ()" "outcome (Some (Inl e)) = Inl e" "outcome (Some (Inr b)) = Inr ()"
  by (simp_all add: outcome_def)

lemma stop_or_throw_simps [simp]:
  "stop_or_throw (Inl e)" "stop_or_throw (Inr True)" "\<not> stop_or_throw (Inr False)"
  by (simp_all add: stop_or_throw_def)

lemma stop_only_simps [simp]:
  "\<not> stop_only (Inl e)" "stop_only (Inr True)" "\<not> stop_only (Inr False)"
  by (simp_all add: stop_only_def)

lemma jsonl_read_loop_feed:
  assumes k: "0 < k"
  shows "length batch < k \<Longrightarrow>
     fst (jsonl_read_loop parse cb k ls batch w)
       = outcome (fst (feed stop_or_throw cb (chunks k (batch @ decoded parse ls)) (user w)))
   \<and> user (snd (jsonl_read_loop parse cb k ls batch w))
       = snd (feed stop_or_throw cb (chunks k (batch @ decoded parse ls)) (user w))"
proof (induction ls arbitrary: batch w)
  case Nil
  obtain r u' where c: "cb batch (user w) = (r, u')"
    by (cases "cb batch (user w)")
  show ?case
  proof (cases "batch = []")
    case True
    then show ?thesis by (simp add: ret_def)
  next
    case False
    then have ch: "chunks k batch = [batch]"
      using Nil.prems by (simp add: chunks_short)
    show ?thesis
      using False
      by (cases r) (simp_all add: ch c call_eq [where cb = cb, OF c] bnd_def ret_def)
  qed
next
  case (Cons line rest)
  show ?case
  proof (cases rule: line_cases [where line = line and parse = parse])
    case blank
    show ?thesis
      using Cons.IH [OF Cons.prems]
      by (simp only: jsonl_read_loop_blank [where parse = parse, OF blank]
          decoded_Cons_blank [where parse = parse, OF blank])
  next
    case bad
    show ?thesis
      using Cons.IH [OF Cons.prems, of "warn line w"]
      by (simp only: jsonl_read_loop_bad [where parse = parse, OF bad]
          decoded_Cons_None [where parse = parse, OF bad(2)] user_warn)
  next
    case (ok v)
    have d: "decoded parse (line # rest) = v # decoded parse rest"
      using ok by (rule decoded_Cons_Some)
    show ?thesis
    proof (cases "Suc (length batch) = k")
      case False
      with Cons.prems have "length (batch @ [v]) < k"
        by simp
      from Cons.IH [OF this, of w] show ?thesis
        by (simp only: jsonl_read_loop_more [where parse = parse, OF ok False] d) simp
    next
      case True
      obtain r u' where c: "cb (batch @ [v]) (user w) = (r, u')"
        by (cases "cb (batch @ [v]) (user w)")
      have ch: "chunks k (batch @ v # decoded parse rest) = (batch @ [v]) # chunks k (decoded parse rest)"
        using chunks_full [OF k, of "batch @ [v]" "decoded parse rest"] True by simp
      have step: "jsonl_read_loop parse cb k (line # rest) batch w =
          (case r of Inl e \<Rightarrow> (Inl e, w\<lparr>user := u'\<rparr>)
           | Inr canEnd \<Rightarrow> if canEnd then (Inr (), w\<lparr>user := u'\<rparr>)
                          else jsonl_read_loop parse cb k rest [] (w\<lparr>user := u'\<rparr>))"
        by (simp only: jsonl_read_loop_full [where parse = parse, OF ok True])
          (simp add: bnd_def call_eq [where cb = cb, OF c] ret_def split: sum.splits)
      show ?thesis
      proof (cases "stop_or_throw r")
        case True
        then show ?thesis
          by (cases r) (auto simp: step d ch c)
      next
        case False
        then have r: "r = Inr False"
          by (cases r) (auto simp: stop_or_throw_def)
        from Cons.IH [of "[]" "w\<lparr>user := u'\<rparr>"] k show ?thesis
          by (simp add: step d ch c r)
      qed
    qed
  qed
qed

lemma jsonl_readLineByLine_loop_ok:
  "trim line \<noteq> [] \<Longrightarrow> parse line = Some v \<Longrightarrow> cb v (user w) = (r, u') \<Longrightarrow>
   jsonl_readLineByLine_loop parse cb (line # rest) w =
     (case r of
        Inl e \<Rightarrow> jsonl_readLineByLine_loop parse cb rest (warn line (w\<lparr>user := u'\<rparr>))
      | Inr result \<Rightarrow> if result then (Inr (), w\<lparr>user := u'\<rparr>)
                     else jsonl_readLineByLine_loop parse cb rest (w\<lparr>user := u'\<rparr>))"
  by (simp add: call_def ret_def split: sum.splits)

lemma jsonl_readLineByLine_loop_blank:
  "trim line = [] \<Longrightarrow>
   jsonl_readLineByLine_loop parse cb (line # rest) w = jsonl_readLineByLine_loop parse cb rest w"
  by simp

lemma jsonl_readLineByLine_loop_bad:
  "trim line \<noteq> [] \<Longrightarrow> parse line = None \<Longrightarrow>
   jsonl_readLineByLine_loop parse cb (line # rest) w
     = jsonl_readLineByLine_loop parse cb rest (warn line w)"
  by simp

declare jsonl_readLineByLine_loop.simps(2) [simp del]

lemma jsonl_readLineByLine_loop_feed:
  "fst (jsonl_readLineByLine_loop parse cb ls w) = Inr ()
   \<and> user (snd (jsonl_readLineByLine_loop parse cb ls w))
       = snd (feed stop_only cb (decoded parse ls) (user w))
   \<and> files (snd (jsonl_readLineByLine_loop parse cb ls w)) = files w"
proof (induction ls arbitrary: w)
  case Nil
  show ?case by (simp add: ret_def)
next
  case (Cons line rest)
  show ?case
  proof (cases rule: line_cases [where line = line and parse = parse])
    case blank
    show ?thesis
      using Cons.IH [of w]
      by (simp only: jsonl_readLineByLine_loop_blank [where parse = parse, OF blank]
          decoded_Cons_blank [where parse = parse, OF blank])
  next
    case bad
    show ?thesis
      using Cons.IH [of "warn line w"]
      by (simp only: jsonl_readLineByLine_loop_bad [where parse = parse, OF bad]
          decoded_Cons_None [where parse = parse, OF bad(2)] user_warn files_warn)
  next
    case (ok v)
    have d: "decoded parse (line # rest) = v # decoded parse rest"
      using ok by (rule decoded_Cons_Some)
    obtain r u' where c: "cb v (user w) = (r, u')"
      by (cases "cb v (user w)")
    note step = jsonl_readLineByLine_loop_ok [where parse = parse and cb = cb, OF ok c]
    show ?thesis
    proof (cases r)
      case (Inl e)
      show ?thesis
        using Cons.IH [of "warn line (w\<lparr>user := u'\<rparr>)"]
        by (simp add: step d c Inl)
    next
      case (Inr b)
      show ?thesis
        using Cons.IH [of "w\<lparr>user := u'\<rparr>"]
        by (simp add: step d c Inr)
    qed
  qed
qed

lemma jsonlFile_read_loop_feed:
  "\<forall>l\<in>set ls. trim l \<noteq> [] \<and> parse l \<noteq> None \<Longrightarrow>
   jsonlFile_read_loop parse (call cb) ls w =
     (outcome (fst (feed stop_or_throw cb (decoded parse ls) (user w))),
      w\<lparr>user := snd (feed stop_or_throw cb (decoded parse ls) (user w))\<rparr>)"
proof (induction ls arbitrary: w)
  case Nil
  show ?case by (simp add: ret_def)
next
  case (Cons line rest)
  from Cons.prems obtain v where ok: "trim line \<noteq> []" "parse line = Some v"
    by auto
  have rest: "\<forall>l\<in>set rest. trim l \<noteq> [] \<and> parse l \<noteq> None"
    using Cons.prems by simp
  have d: "decoded parse (line # rest) = v # decoded parse rest"
    using ok by (rule decoded_Cons_Some)
  obtain r u' where c: "cb v (user w) = (r, u')"
    by (cases "cb v (user w)")
  have step: "jsonlFile_read_loop parse (call cb) (line # rest) w =
      (case r of Inl e \<Rightarrow> (Inl e, w\<lparr>user := u'\<rparr>)
       | Inr canEnd \<Rightarrow> if canEnd then (Inr (), w\<lparr>user := u'\<rparr>)
                      else jsonlFile_read_loop parse (call cb) rest (w\<lparr>user := u'\<rparr>))"
    by (simp only: jsonlFile_read_loop_Some [where parse = parse, OF ok(2)])
      (simp add: bnd_def call_eq [where cb = cb, OF c] ret_def split: sum.splits)
  show ?case
  proof (cases r)
    case (Inl e)
    then show ?thesis by (simp add: step d c del: jsonlFile_read_loop.simps)
  next
    case (Inr b)
    then show ?thesis
      using Cons.IH [OF rest, of "w\<lparr>user := u'\<rparr>"]
      by (cases b) (simp_all add: step d c del: jsonlFile_read_loop.simps)
  qed
qed

lemma jsonlFile_readByBatch_loop_full:
  "parse line = Some v \<Longrightarrow> Suc (length batch) = k \<Longrightarrow>
   jsonlFile_readByBatch_loop parse onBatch k (line # rest) batch w
     = bnd (call onBatch (batch @ [v]))
         (\<lambda>canEnd. if canEnd then ret () else jsonlFile_readByBatch_loop parse onBatch k rest []) w"
  by (simp add: bnd_Inr [OF JSON_parse_Some])

lemma jsonlFile_readByBatch_loop_more:
  "parse line = Some v \<Longrightarrow> Suc (length batch) \<noteq> k \<Longrightarrow>
   jsonlFile_readByBatch_loop parse onBatch k (line # rest) batch w
     = jsonlFile_readByBatch_loop parse onBatch k rest (batch @ [v]) w"
  by (simp add: bnd_Inr [OF JSON_parse_Some])

lemma jsonlFile_readByBatch_loop_None:
  "parse line = None \<Longrightarrow>
   jsonlFile_readByBatch_loop parse onBatch k (line # rest) batch w = (Inl SyntaxError, w)"
  by (simp add: bnd_Inl [OF JSON_parse_None])

declare jsonlFile_readByBatch_loop.simps(2) [simp del]

lemma jsonlFile_readByBatch_loop_feed:
  assumes k: "0 < k"
  shows "\<forall>l\<in>set ls. trim l \<noteq> [] \<and> parse l \<noteq> None \<Longrightarrow> length batch < k \<Longrightarrow>
   jsonlFile_readByBatch_loop parse cb k ls batch w =
     (outcome (fst (feed stop_or_throw cb (chunks k (batch @ decoded parse ls)) (user w))),
      w\<lparr>user := snd (feed stop_or_throw cb (chunks k (batch @ decoded parse ls)) (user w))\<rparr>)"
proof (induction ls arbitrary: batch w)
  case Nil
  obtain r u' where c: "cb batch (user w) = (r, u')"
    by (cases "cb batch (user w)")
  show ?case
  proof (cases "batch = []")
    case True
    then show ?thesis by (simp add: ret_def)
  next
    case False
    then have ch: "chunks k batch = [batch]"
      using Nil.prems by (simp add: chunks_short)
    show ?thesis
      using False
      by (cases r) (simp_all add: ch c call_eq [where cb = cb, OF c] bnd_def ret_def)
  qed
next
  case (Cons line rest)
  from Cons.prems obtain v where ok: "trim line \<noteq> []" "parse line = Some v"
    by auto
  have rest: "\<forall>l\<in>set rest. trim l \<noteq> [] \<and> parse l \<noteq> None"
    using Cons.prems by simp
  have d: "decoded parse (line # rest) = v # decoded parse rest"
    using ok by (rule decoded_Cons_Some)
  show ?case
  proof (cases "Suc (length batch) = k")
    case False
    with Cons.prems have "length (batch @ [v]) < k"
      by simp
    from Cons.IH [OF rest this, of w] show ?thesis
      by (simp only: jsonlFile_readByBatch_loop_more [where parse = parse, OF ok(2) False] d) simp
  next
    case True
    obtain r u' where c: "cb (batch @ [v]) (user w) = (r, u')"
      by (cases "cb (batch @ [v]) (user w)")
    have ch: "chunks k (batch @ v # decoded parse rest) = (batch @ [v]) # chunks k (decoded parse rest)"
      using chunks_full [OF k, of "batch @ [v]" "decoded parse rest"] True by simp
    have step: "jsonlFile_readByBatch_loop parse cb k (line # rest) batch w =
        (case r of Inl e \<Rightarrow> (Inl e, w\<lparr>user := u'\<rparr>)
         | Inr canEnd \<Rightarrow> if canEnd then (Inr (), w\<lparr>user := u'\<rparr>)
                        else jsonlFile_readByBatch_loop parse cb k rest [] (w\<lparr>user := u'\<rparr>))"
      by (simp only: jsonlFile_readByBatch_loop_full [where parse = parse, OF ok(2) True])
        (simp add: bnd_def call_eq [where cb = cb, OF c] ret_def split: sum.splits)
    show ?thesis
    proof (cases r)
      case (Inl e)
      then show ?thesis by (simp add: step d ch c)
    next
      case (Inr b)
      then show ?thesis
        using Cons.IH [OF rest, of "[]" "w\<lparr>user := u'\<rparr>"] k
        by (cases b) (simp_all add: step d ch c)
    qed
  qed
qed

lemma calls_run_of: "run_of halt (calls halt cb xs u) xs"
  unfolding run_of_def
proof (intro conjI allI impI)
  show "prefix (map fst (calls halt cb xs u)) xs"
    by (rule calls_prefix)
next
  fix i
  assume "Suc i < length (calls halt cb xs u)"
  then show "\<not> halt (snd (calls halt cb xs u ! i))"
    using calls_halt_last [of i halt cb xs u] by auto
next
  assume "\<forall>e\<in>set (calls halt cb xs u). \<not> halt (snd e)"
  then show "map fst (calls halt cb xs u) = xs"
    by (rule calls_complete)
qed

lemma local_of_snd: "local_of w = snd (user w)"
  by (simp add: local_of_def)

lemma jsonl_read_log:
  assumes "0 < k"
  shows "local_of (snd (jsonl_read parse p (traced cb) k (with_local [] w)))
           = calls stop_or_throw cb (chunks k (records_of parse w p)) (user w)"
proof (cases "files w p")
  case None
  then show ?thesis
    by (simp add: jsonl_read_def records_of_def ret_def)
next
  case (Some c)
  have "user (snd (jsonl_read_loop parse (traced cb) k (split_lines c) [] (with_local [] w)))
      = snd (feed stop_or_throw (traced cb) (chunks k (decoded parse (split_lines c))) (user w, []))"
    using jsonl_read_loop_feed [OF assms, of "[]" parse "traced cb" "split_lines c" "with_local [] w"] assms
    by simp
  then show ?thesis
    using Some by (simp add: jsonl_read_def records_of_def getRl_bnd feed_traced local_of_snd)
qed

lemma jsonlFile_readByBatch_log:
  assumes "0 < k" and "files w p = Some c"
    and "\<forall>l\<in>set (split_lines c). trim l \<noteq> [] \<and> parse l \<noteq> None"
  shows "local_of (snd (jsonlFile_readByBatch parse p (traced cb) k (with_local [] w)))
           = calls stop_or_throw cb (chunks k (records_of parse w p)) (user w)"
  using assms(2)
    jsonlFile_readByBatch_loop_feed [OF assms(1) assms(3), of "[]" "traced cb" "with_local [] w"] assms(1)
  by (simp add: jsonlFile_readByBatch_def records_of_def getRl_bnd feed_traced local_of_snd)

section \<open>Reading by batch\<close>

text \<open>
  C2, as the code has it. Let \<open>k\<close> be positive and let a \<open>traced\<close> batch callback start
  with an empty log. After \<open>read\<close> of \<open>lib/jsonl.ts\<close>, on any file, the log is a run over
  the batches \<open>chunks k\<close> of the decoded records: the batches arrive in order, nothing is
  passed after a stop signal (or an error), and if the callback never asks to stop every
  batch is passed exactly once, the final short one included. The same holds for
  \<open>readByBatch\<close> of \<open>jsonlFile.js\<close> on an existing file whose every line decodes. The
  batches number \<open>ceil(n/k)\<close>, concatenate to the records, and all but the last have size \<open>k\<close>.
\<close>

theorem readByBatch_delivers_chunks:
  assumes "0 < k"
  shows "run_of stop_or_throw
           (local_of (snd (jsonl_read parse p (traced cb) k (with_local [] w))))
           (chunks k (records_of parse w p))
       \<and> ((\<forall>x u. fst (cb x u) = Inr False) \<longrightarrow>
            local_of (snd (jsonl_read parse p (traced cb) k (with_local [] w)))
              = map (\<lambda>b. (b, Inr False)) (chunks k (records_of parse w p)))
       \<and> (files w p = Some c \<and> (\<forall>l\<in>set (split_lines c). trim l \<noteq> [] \<and> parse l \<noteq> None) \<longrightarrow>
            run_of stop_or_throw
              (local_of (snd (jsonlFile_readByBatch parse p (traced cb) k (with_local [] w))))
              (chunks k (records_of parse w p))
            \<and> ((\<forall>x u. fst (cb x u) = Inr False) \<longrightarrow>
                 local_of (snd (jsonlFile_readByBatch parse p (traced cb) k (with_local [] w)))
                   = map (\<lambda>b. (b, Inr False)) (chunks k (records_of parse w p))))
       \<and> length (chunks k (records_of parse w p)) = (length (records_of parse w p) + k - 1) div k
       \<and> concat (chunks k (records_of parse w p)) = records_of parse w p
       \<and> (\<forall>b\<in>set (butlast (chunks k (records_of parse w p))). length b = k)
       \<and> (\<forall>b\<in>set (chunks k (records_of parse w p)). 0 < length b \<and> length b \<le> k)"
proof -
  let ?recs = "records_of parse w p"
  have a: "run_of stop_or_throw
           (local_of (snd (jsonl_read parse p (traced cb) k (with_local [] w)))) (chunks k ?recs)"
    by (simp only: jsonl_read_log [OF assms] calls_run_of)
  have b: "(\<forall>x u. fst (cb x u) = Inr False) \<longrightarrow>
            local_of (snd (jsonl_read parse p (traced cb) k (with_local [] w)))
              = map (\<lambda>b. (b, Inr False)) (chunks k ?recs)"
    by (simp only: jsonl_read_log [OF assms]) (simp add: calls_keep_going)
  have c: "files w p = Some c \<and> (\<forall>l\<in>set (split_lines c). trim l \<noteq> [] \<and> parse l \<noteq> None) \<longrightarrow>
            run_of stop_or_throw
              (local_of (snd (jsonlFile_readByBatch parse p (traced cb) k (with_local [] w))))
              (chunks k ?recs)
            \<and> ((\<forall>x u. fst (cb x u) = Inr False) \<longrightarrow>
                 local_of (snd (jsonlFile_readByBatch parse p (traced cb) k (with_local [] w)))
                   = map (\<lambda>b. (b, Inr False)) (chunks k ?recs))"
  proof (intro impI, elim conjE)
    assume f: "files w p = Some c"
      and ok: "\<forall>l\<in>set (split_lines c). trim l \<noteq> [] \<and> parse l \<noteq> None"
    show "run_of stop_or_throw
              (local_of (snd (jsonlFile_readByBatch parse p (traced cb) k (with_local [] w))))
              (chunks k ?recs)
            \<and> ((\<forall>x u. fst (cb x u) = Inr False) \<longrightarrow>
                 local_of (snd (jsonlFile_readByBatch parse p (traced cb) k (with_local [] w)))
                   = map (\<lambda>b. (b, Inr False)) (chunks k ?recs))"
      by (simp only: jsonlFile_readByBatch_log [OF assms f ok] calls_run_of)
        (simp add: calls_keep_going)
  qed
  have d: "length (chunks k ?recs) = (length ?recs + k - 1) div k"
    using assms by (rule length_chunks)
  have e: "concat (chunks k ?recs) = ?recs"
    by (rule concat_chunks)
  have f: "\<forall>b\<in>set (butlast (chunks k ?recs)). length b = k"
    using chunks_butlast_full [OF assms] by blast
  have g: "\<forall>b\<in>set (chunks k ?recs). 0 < length b \<and> length b \<le> k"
    using chunks_sizes [OF assms] by blast
  from a b c d e f g show ?thesis
    by (intro conjI)
qed

theorem readByBatch_delivers_chunks_witness:
  "(0::nat) < 1
   \<and> local_of (snd (jsonl_read example_parse ''users.jsonl'' (traced keep_going) 1
                     (with_local [] (world_of users_fs ()))))
       = [([rec_a1], Inr False), ([rec_a2], Inr False)]"
proof -
  have r: "records_of example_parse (world_of users_fs ()) ''users.jsonl'' = [rec_a1, rec_a2]"
    by (simp add: records_of_def world_of_def users_fs_def split_two_lines decoded_def
        trim_line_a1 trim_line_a2 example_parse_simps)
      (simp add: line_a1_def line_a2_def)
  have c: "chunks (Suc 0) [rec_a1, rec_a2] = [[rec_a1], [rec_a2]]"
    by (simp add: chunks.simps)
  show ?thesis
    using readByBatch_delivers_chunks
      [of 1 example_parse "''users.jsonl''" keep_going "world_of users_fs ()"]
    by (simp add: r c keep_going_def)
qed

text \<open>
  C2 as stated fails on \<open>readByBatch\<close> of \<open>jsonlFile.js\<close>: the file below holds one
  decodable record after a line that is not JSON; with \<open>k = 1\<close> the callback should run
  once, but the traversal throws on the first line and the callback never runs.
\<close>

theorem readByBatch_fails_before_a_record:
  "jsonlFile_readByBatch example_parse ''users.jsonl'' (traced keep_going) 1
       (with_local [] (world_of bad_fs ()))
     = (Inl SyntaxError, with_local [] (world_of bad_fs ()))
   \<and> records_of example_parse (world_of bad_fs ()) ''users.jsonl'' = [rec_a1]"
proof -
  have l: "split_lines bad_then_record = [''not-json'', line_a1]"
    by (simp add: split_lines_def bad_then_record_def line_a1_def)
  have p: "example_parse ''not-json'' = None"
    by (simp add: example_parse_def line_a1_def line_a2_def line_b1_def)
  have "trim ''not-json'' = ''not-json''"
    by (rule trim_plain)
       (simp_all add: space_at_start_def space_at_end_def white_space_def suffix_to_prefix)
  then have t: "trim ''not-json'' \<noteq> []"
    by simp
  have ne: "line_a1 \<noteq> []"
    by (simp add: line_a1_def)
  have r: "records_of example_parse (world_of bad_fs ()) ''users.jsonl'' = [rec_a1]"
    by (simp add: records_of_def world_of_def bad_fs_def l decoded_def p t trim_line_a1 ne
        example_parse_simps)
  have f: "jsonlFile_readByBatch example_parse ''users.jsonl'' (traced keep_going) 1
       (with_local [] (world_of bad_fs ()))
     = (Inl SyntaxError, with_local [] (world_of bad_fs ()))"
    by (simp add: jsonlFile_readByBatch_def getRl_bnd with_local_def world_of_def bad_fs_def l
        jsonlFile_readByBatch_loop_None [where parse = example_parse, OF p])
  from f r show ?thesis by simp
qed

section \<open>Stopping a traversal early\<close>

lemma calls_continue:
  "\<not> halt (Inr False) \<Longrightarrow> (\<And>x u. fst (cb x u) = Inr False) \<Longrightarrow>
   calls halt cb xs u = map (\<lambda>x. (x, Inr False)) xs"
proof (induction xs arbitrary: u)
  case Nil
  show ?case by simp
next
  case (Cons x xs)
  obtain r u' where c: "cb x u = (r, u')"
    by (cases "cb x u")
  have r: "r = Inr False"
    using Cons.prems(2) [of x u] c by simp
  show ?case
    using Cons.IH [OF Cons.prems] Cons.prems(1) by (simp add: c r)
qed

lemma records_of_files: "files w' = files w \<Longrightarrow> records_of parse w' p = records_of parse w p"
  by (simp add: records_of_def)

lemma jsonl_readLineByLine_files:
  "files (snd (jsonl_readLineByLine parse p cb w)) = files w"
  by (simp add: jsonl_readLineByLine_def getRl_bnd ret_def jsonl_readLineByLine_loop_feed
      split: option.splits)

lemma jsonl_readLineByLine_ok: "fst (jsonl_readLineByLine parse p cb w) = Inr ()"
  by (simp add: jsonl_readLineByLine_def getRl_bnd ret_def jsonl_readLineByLine_loop_feed
      split: option.splits)

lemma jsonl_readLineByLine_log:
  "local_of (snd (jsonl_readLineByLine parse p (traced cb) (with_local [] w)))
     = calls stop_only cb (records_of parse w p) (user w)"
proof (cases "files w p")
  case None
  then show ?thesis
    by (simp add: jsonl_readLineByLine_def records_of_def ret_def)
next
  case (Some c)
  have "user (snd (jsonl_readLineByLine_loop parse (traced cb) (split_lines c) (with_local [] w)))
      = snd (feed stop_only (traced cb) (decoded parse (split_lines c)) (user w, []))"
    using jsonl_readLineByLine_loop_feed [of parse "traced cb" "split_lines c" "with_local [] w"]
    by simp
  then show ?thesis
    using Some
    by (simp add: jsonl_readLineByLine_def records_of_def getRl_bnd feed_traced local_of_snd)
qed

lemma jsonlFile_read_log:
  assumes "files w p = Some c"
    and "\<forall>l\<in>set (split_lines c). trim l \<noteq> [] \<and> parse l \<noteq> None"
  shows "local_of (snd (jsonlFile_read parse p (call (traced cb)) (with_local [] w)))
           = calls stop_or_throw cb (records_of parse w p) (user w)
       \<and> files (snd (jsonlFile_read parse p (call (traced cb)) (with_local [] w))) = files w"
  using assms(1) jsonlFile_read_loop_feed [OF assms(2), of "traced cb" "with_local [] w"]
  by (simp add: jsonlFile_read_def records_of_def getRl_bnd feed_traced local_of_snd)

lemma keep_going_False: "fst (keep_going x u) = Inr False"
  by (simp add: keep_going_def)

lemma users_lines_decode:
  "\<forall>l\<in>set (split_lines two_lines). trim l \<noteq> [] \<and> example_parse l \<noteq> None"
  by (simp add: split_two_lines trim_line_a1 trim_line_a2 example_parse_simps)
    (simp add: line_a1_def line_a2_def)

lemma users_records: "records_of example_parse (world_of users_fs u) ''users.jsonl'' = [rec_a1, rec_a2]"
  by (simp add: records_of_def world_of_def users_fs_def split_two_lines decoded_def
      trim_line_a1 trim_line_a2 example_parse_simps)
    (simp add: line_a1_def line_a2_def)

lemma jsonlFile_read_loop_files:
  "files (snd (jsonlFile_read_loop parse (call cb) ls w)) = files w"
proof (induction ls arbitrary: w)
  case Nil
  show ?case by (simp add: ret_def)
next
  case (Cons line rest)
  show ?case
  proof (cases "parse line")
    case None
    then show ?thesis
      by (simp add: jsonlFile_read_loop_None del: jsonlFile_read_loop.simps)
  next
    case (Some v)
    obtain r u' where c: "cb v (user w) = (r, u')"
      by (cases "cb v (user w)")
    show ?thesis
      using Cons.IH [of "w\<lparr>user := u'\<rparr>"]
      by (simp only: jsonlFile_read_loop_Some [where parse = parse, OF Some])
        (simp add: bnd_def call_eq [where cb = cb, OF c] ret_def split: sum.splits)
  qed
qed

lemma jsonlFile_read_files: "files (snd (jsonlFile_read parse p (call cb) w)) = files w"
  by (simp add: jsonlFile_read_def getRl_bnd jsonlFile_read_loop_files split: option.splits)

lemma calls_run_until_stop: "run_until_stop (calls stop_only cb xs u) xs"
proof -
  have r: "run_of stop_only (calls stop_only cb xs u) xs"
    by (rule calls_run_of)
  have "\<forall>e\<in>set (calls stop_only cb xs u). \<not> stop_only (snd e)"
    if "\<forall>e\<in>set (calls stop_only cb xs u). snd e = Inr False"
    using that by (simp add: stop_only_def)
  with r show ?thesis
    unfolding run_of_def run_until_stop_def by (auto simp: stop_only_def)
qed

lemma jsonlFile_read_loop_user:
  "user (snd (jsonlFile_read_loop parse (call cb) ls w))
     = snd (feed stop_or_throw cb (decoded_until_failure parse ls) (user w))"
proof (induction ls arbitrary: w)
  case Nil
  show ?case by (simp add: ret_def decoded_until_failure_def)
next
  case (Cons line rest)
  show ?case
  proof (cases "parse line")
    case None
    then show ?thesis
      by (simp add: jsonlFile_read_loop_None [where parse = parse, OF None]
          decoded_until_failure_def del: jsonlFile_read_loop.simps)
  next
    case (Some v)
    have d: "decoded_until_failure parse (line # rest) = v # decoded_until_failure parse rest"
      using Some by (simp add: decoded_until_failure_def)
    obtain r u' where c: "cb v (user w) = (r, u')"
      by (cases "cb v (user w)")
    have step: "jsonlFile_read_loop parse (call cb) (line # rest) w =
        (case r of Inl e \<Rightarrow> (Inl e, w\<lparr>user := u'\<rparr>)
         | Inr canEnd \<Rightarrow> if canEnd then (Inr (), w\<lparr>user := u'\<rparr>)
                        else jsonlFile_read_loop parse (call cb) rest (w\<lparr>user := u'\<rparr>))"
      by (simp only: jsonlFile_read_loop_Some [where parse = parse, OF Some])
        (simp add: bnd_def call_eq [where cb = cb, OF c] ret_def split: sum.splits)
    show ?thesis
    proof (cases r)
      case (Inl e)
      then show ?thesis
        by (simp add: step d c stop_or_throw_def del: jsonlFile_read_loop.simps)
    next
      case (Inr b)
      then show ?thesis
        using Cons.IH [of "w\<lparr>user := u'\<rparr>"]
        by (cases b) (simp_all add: step d c stop_or_throw_def del: jsonlFile_read_loop.simps)
    qed
  qed
qed

lemma jsonlFile_read_log_every_file:
  "local_of (snd (jsonlFile_read parse p (call (traced cb)) (with_local [] w)))
     = calls stop_or_throw cb (decoded_until_failure parse (lines_of w p)) (user w)"
proof (cases "files w p")
  case None
  then show ?thesis
    by (simp add: jsonlFile_read_def getRl_bnd lines_of_def decoded_until_failure_def
        local_of_snd)
next
  case (Some c)
  have "user (snd (jsonlFile_read_loop parse (call (traced cb)) (split_lines c) (with_local [] w)))
      = snd (feed stop_or_throw (traced cb) (decoded_until_failure parse (split_lines c))
               (user w, []))"
    using jsonlFile_read_loop_user [of parse "traced cb" "split_lines c" "with_local [] w"]
    by simp
  then show ?thesis
    using Some
    by (simp add: jsonlFile_read_def getRl_bnd lines_of_def feed_traced local_of_snd)
qed

lemma decoded_until_failure_all:
  assumes "\<forall>l\<in>set ls. trim l \<noteq> [] \<and> parse l \<noteq> None"
  shows "decoded_until_failure parse ls = decoded parse ls"
proof -
  have tw: "takeWhile (\<lambda>l. parse l \<noteq> None) ls = ls"
    using assms by (intro takeWhile_eq_all_conv [THEN iffD2]) auto
  show ?thesis
    unfolding decoded_until_failure_def tw
    using decoded_all [where parse = parse, OF assms] by simp
qed

lemma split_bad_between: "split_lines bad_between = [line_a1, ''not-json'', line_a2]"
  by (simp add: split_lines_def bad_between_def line_a1_def line_a2_def)

text \<open>
  C6, as the code has it. Let a \<open>traced\<close> line callback start with an empty log.

    \<^item> After \<open>readLineByLine\<close> of \<open>lib/jsonl.ts\<close>, on any file, the log is a run over the
      decoded records that ends at a stop signal: the records arrive in file order and
      no invocation follows one that answered \<open>true\<close>. A second, independent
      \<open>readLineByLine\<close> over the same path, started in the world the first one left, sees
      every record.

    \<^item> After \<open>read\<close> of \<open>jsonlFile.js\<close>, on any file, the log is a run over the records of
      the lines before the first line that does not decode: no invocation follows a stop
      signal (or a thrown error).

    \<^item> On an existing file whose every line is not blank and decodes, those are all the
      decoded records, and a second, independent \<open>read\<close> of \<open>jsonlFile.js\<close> sees every
      record.
\<close>

theorem read_stops_at_stop_signal:
  "run_until_stop
     (local_of (snd (jsonl_readLineByLine parse p (traced cb) (with_local [] w))))
     (records_of parse w p)
   \<and> local_of (snd (jsonl_readLineByLine parse p (traced keep_going)
        (with_local [] (snd (jsonl_readLineByLine parse p (traced cb) (with_local [] w))))))
       = map (\<lambda>r. (r, Inr False)) (records_of parse w p)
   \<and> run_of stop_or_throw
        (local_of (snd (jsonlFile_read parse p (call (traced cb)) (with_local [] w))))
        (decoded_until_failure parse (lines_of w p))
   \<and> (files w p = Some c \<and> (\<forall>l\<in>set (split_lines c). trim l \<noteq> [] \<and> parse l \<noteq> None) \<longrightarrow>
        decoded_until_failure parse (lines_of w p) = records_of parse w p
        \<and> run_of stop_or_throw
          (local_of (snd (jsonlFile_read parse p (call (traced cb)) (with_local [] w))))
          (records_of parse w p)
        \<and> local_of (snd (jsonlFile_read parse p (call (traced keep_going))
             (with_local [] (snd (jsonlFile_read parse p (call (traced cb)) (with_local [] w))))))
            = map (\<lambda>r. (r, Inr False)) (records_of parse w p))"
proof -
  let ?w1 = "snd (jsonl_readLineByLine parse p (traced cb) (with_local [] w))"
  have a: "run_until_stop (local_of ?w1) (records_of parse w p)"
    by (simp only: jsonl_readLineByLine_log calls_run_until_stop)
  have "files ?w1 = files w"
    by (simp add: jsonl_readLineByLine_files)
  then have r1: "records_of parse ?w1 p = records_of parse w p"
    by (rule records_of_files)
  have b: "local_of (snd (jsonl_readLineByLine parse p (traced keep_going) (with_local [] ?w1)))
       = map (\<lambda>r. (r, Inr False)) (records_of parse w p)"
    by (simp only: jsonl_readLineByLine_log r1)
       (simp add: calls_continue keep_going_False stop_only_def)
  let ?w2 = "snd (jsonlFile_read parse p (call (traced cb)) (with_local [] w))"
  have g: "run_of stop_or_throw (local_of ?w2) (decoded_until_failure parse (lines_of w p))"
    by (simp only: jsonlFile_read_log_every_file calls_run_of)
  have c: "files w p = Some c \<and> (\<forall>l\<in>set (split_lines c). trim l \<noteq> [] \<and> parse l \<noteq> None) \<longrightarrow>
        decoded_until_failure parse (lines_of w p) = records_of parse w p
        \<and> run_of stop_or_throw (local_of ?w2) (records_of parse w p)
        \<and> local_of (snd (jsonlFile_read parse p (call (traced keep_going)) (with_local [] ?w2)))
            = map (\<lambda>r. (r, Inr False)) (records_of parse w p)"
  proof (intro impI, elim conjE)
    assume f: "files w p = Some c"
      and ok: "\<forall>l\<in>set (split_lines c). trim l \<noteq> [] \<and> parse l \<noteq> None"
    have e: "decoded_until_failure parse (lines_of w p) = records_of parse w p"
      using f decoded_until_failure_all [where parse = parse, OF ok]
      by (simp add: lines_of_def records_of_def)
    have x: "run_of stop_or_throw (local_of ?w2) (records_of parse w p)"
      using g by (simp only: e)
    have fs: "files ?w2 = files w"
      by (simp add: jsonlFile_read_files)
    have l2: "lines_of ?w2 p = lines_of w p"
      by (simp add: lines_of_def fs)
    have y: "local_of (snd (jsonlFile_read parse p (call (traced keep_going)) (with_local [] ?w2)))
            = map (\<lambda>r. (r, Inr False)) (records_of parse w p)"
      by (simp only: jsonlFile_read_log_every_file l2 e)
         (simp add: calls_continue keep_going_False stop_or_throw_def)
    from e x y show "decoded_until_failure parse (lines_of w p) = records_of parse w p
        \<and> run_of stop_or_throw (local_of ?w2) (records_of parse w p)
        \<and> local_of (snd (jsonlFile_read parse p (call (traced keep_going)) (with_local [] ?w2)))
            = map (\<lambda>r. (r, Inr False)) (records_of parse w p)"
      by (intro conjI)
  qed
  from a b g c show ?thesis
    by (intro conjI)
qed

theorem read_stops_at_stop_signal_witness:
  "files (world_of users_fs ()) ''users.jsonl'' = Some two_lines
   \<and> records_of example_parse (world_of users_fs ()) ''users.jsonl'' = [rec_a1, rec_a2]
   \<and> local_of (snd (jsonl_readLineByLine example_parse ''users.jsonl'' (traced always_true)
       (with_local [] (world_of users_fs ()))))
     = [(rec_a1, Inr True)]
   \<and> local_of (snd (jsonl_readLineByLine example_parse ''users.jsonl'' (traced keep_going)
       (with_local [] (snd (jsonl_readLineByLine example_parse ''users.jsonl'' (traced always_true)
          (with_local [] (world_of users_fs ())))))))
     = [(rec_a1, Inr False), (rec_a2, Inr False)]
   \<and> local_of (snd (jsonlFile_read example_parse ''users.jsonl'' (call (traced always_true))
       (with_local [] (world_of users_fs ()))))
     = [(rec_a1, Inr True)]
   \<and> local_of (snd (jsonlFile_read example_parse ''users.jsonl'' (call (traced keep_going))
       (with_local [] (snd (jsonlFile_read example_parse ''users.jsonl'' (call (traced always_true))
          (with_local [] (world_of users_fs ())))))))
     = [(rec_a1, Inr False), (rec_a2, Inr False)]"
proof -
  have f: "files (world_of users_fs ()) ''users.jsonl'' = Some two_lines"
    by (simp add: world_of_def users_fs_def)
  have first: "local_of (snd (jsonl_readLineByLine example_parse ''users.jsonl'' (traced always_true)
       (with_local [] (world_of users_fs ()))))
     = [(rec_a1, Inr True)]"
    by (simp add: jsonl_readLineByLine_log users_records always_true_def stop_only_def)
  have e: "decoded_until_failure example_parse (lines_of (world_of users_fs ()) ''users.jsonl'')
             = [rec_a1, rec_a2]"
    by (simp add: decoded_until_failure_def lines_of_def f split_two_lines example_parse_simps)
  have first': "local_of (snd (jsonlFile_read example_parse ''users.jsonl'' (call (traced always_true))
       (with_local [] (world_of users_fs ()))))
     = [(rec_a1, Inr True)]"
    by (simp add: jsonlFile_read_log_every_file e always_true_def stop_or_throw_def)
  show ?thesis
    using read_stops_at_stop_signal [where parse = example_parse and p = "''users.jsonl''"
        and cb = always_true and w = "world_of users_fs ()" and c = two_lines]
      f users_lines_decode first first'
    by (simp add: users_records)
qed

text \<open>
  C6 as stated fails on \<open>read\<close> of \<open>jsonlFile.js\<close>. The file below holds a record, a line
  that does not decode, and a second record. A first \<open>read\<close> stops at the first record.
  A second, independent \<open>read\<close> whose callback never asks to stop is passed the first
  record only and fails with a SyntaxError: it does not see the second record.
\<close>

theorem second_read_fails_at_undecodable_line:
  "records_of example_parse (world_of between_fs ()) ''users.jsonl'' = [rec_a1, rec_a2]
   \<and> jsonlFile_read example_parse ''users.jsonl'' (call (traced always_true))
       (with_local [] (world_of between_fs ()))
     = (Inr (), \<lparr>files = between_fs, console = [], user = ((), [(rec_a1, Inr True)])\<rparr>)
   \<and> jsonlFile_read example_parse ''users.jsonl'' (call (traced keep_going))
       (with_local [] (snd (jsonlFile_read example_parse ''users.jsonl'' (call (traced always_true))
          (with_local [] (world_of between_fs ())))))
     = (Inl SyntaxError,
        \<lparr>files = between_fs, console = [],
         user = (((), [(rec_a1, Inr True)]), [(rec_a1, Inr False)])\<rparr>)"
proof -
  have p: "example_parse ''not-json'' = None"
    by (simp add: example_parse_def line_a1_def line_a2_def line_b1_def)
  have ne: "line_a1 \<noteq> []" "line_a2 \<noteq> []"
    by (simp_all add: line_a1_def line_a2_def)
  have t: "trim ''not-json'' = ''not-json''"
    by (rule trim_plain)
       (simp_all add: space_at_start_def space_at_end_def white_space_def suffix_to_prefix)
  have 1: "records_of example_parse (world_of between_fs ()) ''users.jsonl'' = [rec_a1, rec_a2]"
    using ne
    by (simp add: records_of_def world_of_def between_fs_def split_bad_between
        decoded_Cons_Some trim_line_a1 trim_line_a2 example_parse_simps
        decoded_Cons_None [where parse = example_parse, OF p])
  have l2: "jsonlFile_read_loop example_parse (call (traced always_true))
              [line_a1, ''not-json'', line_a2] v
            = (Inr (), v\<lparr>user := (fst (user v), snd (user v) @ [(rec_a1, Inr True)])\<rparr>)"
    for v :: "(unit \<times> (json \<times> (error + bool)) list) world"
    by (simp add: jsonlFile_read_loop_Some [where parse = example_parse, OF example_parse_simps(1)]
        bnd_def call_def traced_def always_true_def ret_def split: prod.splits
        del: jsonlFile_read_loop.simps(2))
  have 2: "jsonlFile_read example_parse ''users.jsonl'' (call (traced always_true))
       (with_local [] (world_of between_fs ()))
     = (Inr (), \<lparr>files = between_fs, console = [], user = ((), [(rec_a1, Inr True)])\<rparr>)"
    by (simp add: jsonlFile_read_def getRl_bnd world_of_def between_fs_def
        split_bad_between with_local_def l2 del: jsonlFile_read_loop.simps(2))
  have l3: "jsonlFile_read_loop example_parse (call (traced keep_going))
              [line_a1, ''not-json'', line_a2] v
            = (Inl SyntaxError,
               v\<lparr>user := (fst (user v), snd (user v) @ [(rec_a1, Inr False)])\<rparr>)"
    for v :: "((unit \<times> (json \<times> (error + bool)) list) \<times> (json \<times> (error + bool)) list) world"
    by (simp add: jsonlFile_read_loop_Some [where parse = example_parse, OF example_parse_simps(1)]
        jsonlFile_read_loop_None [where parse = example_parse, OF p]
        bnd_def call_def traced_def keep_going_def ret_def split: prod.splits
        del: jsonlFile_read_loop.simps(2))
  have 3: "jsonlFile_read example_parse ''users.jsonl'' (call (traced keep_going))
       (with_local []
          \<lparr>files = between_fs, console = [], user = ((), [(rec_a1, Inr True :: error + bool)])\<rparr>)
     = (Inl SyntaxError,
        \<lparr>files = between_fs, console = [],
         user = (((), [(rec_a1, Inr True)]), [(rec_a1, Inr False)])\<rparr>)"
    by (simp add: jsonlFile_read_def getRl_bnd between_fs_def
        split_bad_between with_local_def l3 del: jsonlFile_read_loop.simps(2))
  from 1 2 3 show ?thesis
    by simp
qed

section \<open>Lines that do not decode\<close>

lemma feed_no_throw:
  "(\<And>x u e. fst (cb x u) \<noteq> Inl e) \<Longrightarrow> outcome (fst (feed halt cb xs u)) = Inr ()"
proof (induction xs arbitrary: u)
  case Nil
  show ?case by simp
next
  case (Cons x xs)
  obtain r u' where c: "cb x u = (r, u')"
    by (cases "cb x u")
  have "\<And>e. r \<noteq> Inl e"
    using Cons.prems [of x u] c by simp
  then obtain b where r: "r = Inr b"
    by (cases r) auto
  show ?case
    using Cons.IH [OF Cons.prems] by (simp add: c r)
qed

lemma console_warn [simp]: "console (warn l w) = console w @ [warning l]"
  by (simp add: warn_def)

lemma console_call: "console (snd (call cb x w)) = console w"
  by (simp add: call_def split: prod.splits)

lemma skipped_Nil [simp]: "skipped parse [] = []"
  by (simp add: skipped_def)

lemma skipped_Cons_bad:
  "trim l \<noteq> [] \<Longrightarrow> parse l = None \<Longrightarrow> skipped parse (l # ls) = l # skipped parse ls"
  by (simp add: skipped_def)

lemma skipped_Cons_blank: "trim l = [] \<Longrightarrow> skipped parse (l # ls) = skipped parse ls"
  by (simp add: skipped_def)

lemma skipped_Cons_ok: "parse l = Some v \<Longrightarrow> skipped parse (l # ls) = skipped parse ls"
  by (simp add: skipped_def)

lemma jsonl_read_loop_console:
  assumes cb: "\<And>x u. fst (cb x u) = Inr False"
  shows "console (snd (jsonl_read_loop parse cb k ls batch w))
           = console w @ map warning (skipped parse ls)"
proof (induction ls arbitrary: batch w)
  case Nil
  obtain r w1 where c: "call cb batch w = (r, w1)"
    by (cases "call cb batch w")
  have "console w1 = console w"
    using console_call [of cb batch w] c by simp
  then show ?case
    using c by (simp add: bnd_def ret_def split: sum.splits)
next
  case (Cons line rest)
  show ?case
  proof (cases rule: line_cases [where line = line and parse = parse])
    case blank
    show ?thesis
      by (simp only: jsonl_read_loop_blank [where parse = parse, OF blank] Cons.IH
          skipped_Cons_blank [where parse = parse, OF blank])
  next
    case bad
    show ?thesis
      by (simp only: jsonl_read_loop_bad [where parse = parse, OF bad] Cons.IH
          skipped_Cons_bad [where parse = parse, OF bad]) simp
  next
    case (ok v)
    note sk = skipped_Cons_ok [where parse = parse, OF ok(2)]
    show ?thesis
    proof (cases "Suc (length batch) = k")
      case False
      show ?thesis
        by (simp only: jsonl_read_loop_more [where parse = parse, OF ok False] Cons.IH sk)
    next
      case True
      obtain r u' where c: "cb (batch @ [v]) (user w) = (r, u')"
        by (cases "cb (batch @ [v]) (user w)")
      have r: "r = Inr False"
        using cb [of "batch @ [v]" "user w"] c by simp
      have step: "jsonl_read_loop parse cb k (line # rest) batch w
          = jsonl_read_loop parse cb k rest [] (w\<lparr>user := u'\<rparr>)"
        by (simp only: jsonl_read_loop_full [where parse = parse, OF ok True])
          (simp add: bnd_def call_eq [where cb = cb, OF c] r)
      show ?thesis
        by (simp add: step Cons.IH sk)
    qed
  qed
qed

lemma jsonl_readLineByLine_loop_console:
  assumes cb: "\<And>x u. fst (cb x u) = Inr False"
  shows "console (snd (jsonl_readLineByLine_loop parse cb ls w))
           = console w @ map warning (skipped parse ls)"
proof (induction ls arbitrary: w)
  case Nil
  show ?case by (simp add: ret_def)
next
  case (Cons line rest)
  show ?case
  proof (cases rule: line_cases [where line = line and parse = parse])
    case blank
    show ?thesis
      by (simp only: jsonl_readLineByLine_loop_blank [where parse = parse, OF blank] Cons.IH
          skipped_Cons_blank [where parse = parse, OF blank])
  next
    case bad
    show ?thesis
      by (simp only: jsonl_readLineByLine_loop_bad [where parse = parse, OF bad] Cons.IH
          skipped_Cons_bad [where parse = parse, OF bad]) simp
  next
    case (ok v)
    obtain r u' where c: "cb v (user w) = (r, u')"
      by (cases "cb v (user w)")
    have r: "r = Inr False"
      using cb [of v "user w"] c by simp
    show ?thesis
      by (simp add: jsonl_readLineByLine_loop_ok [where parse = parse and cb = cb, OF ok c] r
          Cons.IH skipped_Cons_ok [where parse = parse, OF ok(2)])
  qed
qed

lemma jsonl_read_ok:
  assumes "0 < k" and "\<And>x u e. fst (cb x u) \<noteq> Inl e"
  shows "fst (jsonl_read parse p cb k w) = Inr ()"
proof (cases "files w p")
  case None
  then show ?thesis by (simp add: jsonl_read_def ret_def)
next
  case (Some c)
  then show ?thesis
    using jsonl_read_loop_feed [OF assms(1), of "[]" parse cb "split_lines c" w] assms(1)
    by (simp add: jsonl_read_def getRl_bnd feed_no_throw [of cb, OF assms(2)])
qed

lemma decoded_from_line:
  "r \<in> set (decoded parse ls) \<Longrightarrow> \<exists>l\<in>set ls. trim l \<noteq> [] \<and> parse l = Some r"
  by (auto simp: decoded_def map_filter_def)

lemma prefix_concat: "prefix xs ys \<Longrightarrow> prefix (concat xs) (concat ys)"
  by (auto simp: prefix_def)

lemma jsonl_read_console:
  assumes "\<And>x u. fst (cb x u) = Inr False"
  shows "console (snd (jsonl_read parse p cb k w)) = console w @ map warning (skipped parse (lines_of w p))"
  by (simp add: jsonl_read_def getRl_bnd ret_def lines_of_def
      jsonl_read_loop_console [of cb, OF assms] split: option.splits)

lemma jsonl_readLineByLine_console:
  assumes "\<And>x u. fst (cb x u) = Inr False"
  shows "console (snd (jsonl_readLineByLine parse p cb w))
           = console w @ map warning (skipped parse (lines_of w p))"
  by (simp add: jsonl_readLineByLine_def getRl_bnd ret_def lines_of_def
      jsonl_readLineByLine_loop_console [of cb, OF assms] split: option.splits)

lemma jsonl_count_files: "files (snd (jsonl_count parse p w)) = files w"
proof (cases "files w p")
  case None
  then show ?thesis by (simp add: jsonl_count_def ret_def)
next
  case (Some c)
  then show ?thesis
    by (simp add: jsonl_count_def) (rule closure_files, rule jsonl_read_files)
qed

lemma records_from_lines:
  "r \<in> set (records_of parse w p) \<Longrightarrow> \<exists>l\<in>set (lines_of w p). trim l \<noteq> [] \<and> parse l = Some r"
  by (cases "files w p") (auto simp: records_of_def lines_of_def dest: decoded_from_line)

lemma split_bad_then_record: "split_lines bad_then_record = [''not-json'', line_a1]"
  by (simp add: split_lines_def bad_then_record_def line_a1_def)

lemma example_parse_not_json: "example_parse ''not-json'' = None"
  by (simp add: example_parse_def line_a1_def line_a2_def line_b1_def)

lemma trim_not_json_eq: "trim ''not-json'' = ''not-json''"
  by (rule trim_plain)
     (simp_all add: space_at_start_def space_at_end_def white_space_def suffix_to_prefix)

lemma trim_not_json: "trim ''not-json'' \<noteq> []"
  by (simp add: trim_not_json_eq)

lemma jsonlFile_read_loop_keeps_files:
  assumes "\<And>v w. files (snd (onLine v w)) = files w"
  shows "files (snd (jsonlFile_read_loop parse onLine ls w)) = files w"
proof (induction ls arbitrary: w)
  case Nil
  show ?case by (simp add: ret_def)
next
  case (Cons line rest)
  show ?case
  proof (cases "parse line")
    case None
    then show ?thesis
      by (simp add: jsonlFile_read_loop_None del: jsonlFile_read_loop.simps)
  next
    case (Some v)
    obtain r w1 where c: "onLine v w = (r, w1)"
      by (cases "onLine v w")
    have f1: "files w1 = files w"
      using assms [of v w] c by simp
    have "files (snd (jsonlFile_read_loop parse onLine rest w1)) = files w"
      using Cons.IH [of w1] f1 by simp
    then show ?thesis
      using f1
      by (simp only: jsonlFile_read_loop_Some [where parse = parse, OF Some])
        (simp add: bnd_def c ret_def split: sum.splits)
  qed
qed

lemma jsonlFile_read_keeps_files:
  assumes "\<And>v w. files (snd (onLine v w)) = files w"
  shows "files (snd (jsonlFile_read parse p onLine w)) = files w"
  by (cases "files w p")
    (simp_all add: jsonlFile_read_def getRl_bnd
      jsonlFile_read_loop_keeps_files [of onLine, OF assms])

lemma jsonlFile_readByBatch_loop_files:
  "files (snd (jsonlFile_readByBatch_loop parse cb k ls batch w)) = files w"
proof (induction ls arbitrary: batch w)
  case Nil
  obtain r u' where c: "cb batch (user w) = (r, u')"
    by (cases "cb batch (user w)")
  show ?case
    by (simp add: bnd_def call_eq [where cb = cb, OF c] ret_def split: sum.splits)
next
  case (Cons line rest)
  show ?case
  proof (cases "parse line")
    case None
    then show ?thesis
      by (simp add: jsonlFile_readByBatch_loop_None)
  next
    case (Some v)
    show ?thesis
    proof (cases "Suc (length batch) = k")
      case True
      obtain r u' where c: "cb (batch @ [v]) (user w) = (r, u')"
        by (cases "cb (batch @ [v]) (user w)")
      show ?thesis
        using Cons.IH [of "[]" "w\<lparr>user := u'\<rparr>"]
        by (simp only: jsonlFile_readByBatch_loop_full [where parse = parse, OF Some True])
          (simp add: bnd_def call_eq [where cb = cb, OF c] ret_def split: sum.splits)
    next
      case False
      show ?thesis
        using Cons.IH [of "batch @ [v]" w]
        by (simp only: jsonlFile_readByBatch_loop_more [where parse = parse, OF Some False])
    qed
  qed
qed

lemma jsonlFile_readByBatch_files:
  "files (snd (jsonlFile_readByBatch parse p cb k w)) = files w"
  by (cases "files w p")
    (simp_all add: jsonlFile_readByBatch_def getRl_bnd jsonlFile_readByBatch_loop_files)

lemma findWhere_onLine_files:
  "files (snd (findWhere_onLine builtin a x line w)) = files w"
  by (simp add: findWhere_onLine_def set_local_def throw_def ret_def bnd_def split: sum.splits)

lemma jsonlFile_findWhere_files:
  "files (snd (jsonlFile_findWhere parse builtin p a x w)) = files w"
  unfolding jsonlFile_findWhere_def
  by (rule closure_files) (rule jsonlFile_read_keeps_files, rule findWhere_onLine_files)

lemma jsonlFile_findMatch_files:
  "files (snd (jsonlFile_findMatch parse p matchFn w)) = files w"
  unfolding jsonlFile_findMatch_def
  by (rule closure_files, rule jsonlFile_read_keeps_files)
     (simp add: bnd_def call_outer_def get_local_def set_local_def ret_def
       split: prod.splits sum.splits)

lemma jsonlFile_first_last_files:
  "files (snd (jsonlFile_first parse p w)) = files w"
  "files (snd (jsonlFile_last parse p w)) = files w"
  "files (snd (jsonlFile_ts_first parse p w)) = files w"
  "files (snd (jsonlFile_ts_last parse p w)) = files w"
  "files (snd (jsonlFile_count p w)) = files w"
  by (cases "files w p";
      simp add: jsonlFile_first_def jsonlFile_last_def jsonlFile_ts_first_def
        jsonlFile_ts_last_def jsonlFile_count_def getRl_bnd JSON_parse_def throw_def ret_def
        split: list.splits option.splits)+

lemma closure_console:
  "console (snd (closure s m res w)) = console (snd (m (with_local s w)))"
  by (simp add: closure_def drop_local_def split: prod.splits sum.splits)

lemma console_with_local [simp]: "console (with_local s w) = console w"
  by (simp add: with_local_def)

lemma lines_of_with_local [simp]: "lines_of (with_local s w) p = lines_of w p"
  by (simp add: lines_of_def)

lemma jsonl_count_counts_records:
  "fst (jsonl_count parse p w) = Inr (length (records_of parse w p))"
proof (cases "files w p")
  case None
  then show ?thesis
    by (simp add: jsonl_count_def records_of_def ret_def)
next
  case (Some c)
  have "fst (closure 0
          (jsonl_read parse p (\<lambda>batch (u, lineCount). (Inr False, (u, lineCount + length batch))) 1000)
          (\<lambda>lineCount. lineCount) w)
        = Inr (length (records_of parse w p))"
    by (rule closure_collect)
      (use jsonl_read_accumulate
          [of "\<lambda>batch (u, lineCount). (Inr False, (u, lineCount + length batch))"
            "\<lambda>b ua. (fst ua, snd ua + length b)" parse p 1000 "with_local 0 w"]
        in \<open>simp add: case_prod_beta\<close>)
  then show ?thesis
    using Some by (simp add: jsonl_count_def)
qed

lemma jsonl_count_console:
  "console (snd (jsonl_count parse p w)) = console w @ map warning (skipped parse (lines_of w p))"
proof (cases "files w p")
  case None
  then show ?thesis
    by (simp add: jsonl_count_def lines_of_def ret_def)
next
  case (Some c)
  have "console (snd (jsonl_read parse p
           (\<lambda>batch (u, lineCount). (Inr False, (u, lineCount + length batch))) 1000
           (with_local (0::nat) w)))
        = console (with_local (0::nat) w)
          @ map warning (skipped parse (lines_of (with_local (0::nat) w) p))"
    by (rule jsonl_read_console) (simp add: case_prod_beta)
  then show ?thesis
    using Some by (simp add: jsonl_count_def closure_console)
qed

lemma substring_not_json: "substring 100 ''not-json'' = ''not-json''"
  by (simp add: substring.simps utf8_width_def)

text \<open>
  C3, as the code has it. In \<open>lib/jsonl.ts\<close> a line that does not decode does not make a
  traversal fail: \<open>readLineByLine\<close> and \<open>read\<close> return normally whenever the callback
  does not throw, and \<open>count\<close> returns the number of decoded records. The callbacks are
  only ever given decoded records, in file order, and every decoded record is the
  decoding of a non-blank line of the file. When the traversal runs to the end (the
  callback never asks to stop, or it is \<open>count\<close>), one warning has been printed for each
  non-blank line that does not decode. No operation that only reads changes a file:
  \<open>readLineByLine\<close>, \<open>read\<close> and \<open>count\<close> of \<open>lib/jsonl.ts\<close>, \<open>update\<close> and \<open>delete\<close> of the
  facade, and \<open>read\<close>, \<open>readByBatch\<close>, \<open>findWhere\<close>, \<open>findMatch\<close>, \<open>count\<close>, \<open>first\<close> and
  \<open>last\<close> of \<open>jsonlFile.js\<close>.
\<close>

theorem undecodable_lines_are_skipped:
  assumes "0 < k"
  shows "((\<forall>x u e. fst (onLine x u) \<noteq> Inl e) \<longrightarrow>
            fst (jsonl_readLineByLine parse p onLine w) = Inr ())
       \<and> ((\<forall>x u e. fst (onBatch x u) \<noteq> Inl e) \<longrightarrow> fst (jsonl_read parse p onBatch k w) = Inr ())
       \<and> fst (jsonl_count parse p w) = Inr (length (records_of parse w p))
       \<and> prefix (map fst (local_of (snd (jsonl_readLineByLine parse p (traced onLine) (with_local [] w)))))
           (records_of parse w p)
       \<and> prefix (concat (map fst (local_of (snd (jsonl_read parse p (traced onBatch) k (with_local [] w))))))
           (records_of parse w p)
       \<and> (\<forall>r\<in>set (records_of parse w p). \<exists>l\<in>set (lines_of w p). trim l \<noteq> [] \<and> parse l = Some r)
       \<and> ((\<forall>x u. fst (onLine x u) = Inr False) \<longrightarrow>
            console (snd (jsonl_readLineByLine parse p onLine w))
              = console w @ map warning (skipped parse (lines_of w p)))
       \<and> ((\<forall>x u. fst (onBatch x u) = Inr False) \<longrightarrow>
            console (snd (jsonl_read parse p onBatch k w))
              = console w @ map warning (skipped parse (lines_of w p)))
       \<and> console (snd (jsonl_count parse p w))
           = console w @ map warning (skipped parse (lines_of w p))
       \<and> files (snd (jsonl_readLineByLine parse p onLine w)) = files w
       \<and> files (snd (jsonl_read parse p onBatch k w)) = files w
       \<and> files (snd (jsonl_count parse p w)) = files w
       \<and> files (snd (jsonlDir_update parse p onLine updateFn w)) = files w
       \<and> files (snd (jsonlDir_delete parse p onLine w)) = files w
       \<and> files (snd (jsonlFile_read parse p (call onLine) w)) = files w
       \<and> files (snd (jsonlFile_readByBatch parse p onBatch k w)) = files w
       \<and> files (snd (jsonlFile_findWhere parse builtin p attribute v w)) = files w
       \<and> files (snd (jsonlFile_findMatch parse p onLine w)) = files w
       \<and> files (snd (jsonlFile_count p w)) = files w
       \<and> files (snd (jsonlFile_first parse p w)) = files w
       \<and> files (snd (jsonlFile_last parse p w)) = files w
       \<and> files (snd (jsonlFile_ts_first parse p w)) = files w
       \<and> files (snd (jsonlFile_ts_last parse p w)) = files w"
proof -
  have a: "(\<forall>x u e. fst (onLine x u) \<noteq> Inl e) \<longrightarrow>
            fst (jsonl_readLineByLine parse p onLine w) = Inr ()"
    by (simp add: jsonl_readLineByLine_ok)
  have b: "(\<forall>x u e. fst (onBatch x u) \<noteq> Inl e) \<longrightarrow> fst (jsonl_read parse p onBatch k w) = Inr ()"
    using jsonl_read_ok [OF assms, of onBatch parse p w] by blast
  have n: "fst (jsonl_count parse p w) = Inr (length (records_of parse w p))"
    by (rule jsonl_count_counts_records)
  have c: "prefix (map fst (local_of (snd (jsonl_readLineByLine parse p (traced onLine) (with_local [] w)))))
           (records_of parse w p)"
    by (simp only: jsonl_readLineByLine_log calls_prefix)
  have "prefix (map fst (local_of (snd (jsonl_read parse p (traced onBatch) k (with_local [] w)))))
           (chunks k (records_of parse w p))"
    by (simp only: jsonl_read_log [OF assms] calls_prefix)
  then have d: "prefix (concat (map fst (local_of (snd (jsonl_read parse p (traced onBatch) k (with_local [] w))))))
           (records_of parse w p)"
    using prefix_concat concat_chunks by metis
  have e: "\<forall>r\<in>set (records_of parse w p). \<exists>l\<in>set (lines_of w p). trim l \<noteq> [] \<and> parse l = Some r"
    using records_from_lines by blast
  have f: "(\<forall>x u. fst (onLine x u) = Inr False) \<longrightarrow>
            console (snd (jsonl_readLineByLine parse p onLine w))
              = console w @ map warning (skipped parse (lines_of w p))"
    using jsonl_readLineByLine_console [of onLine parse p w] by blast
  have g: "(\<forall>x u. fst (onBatch x u) = Inr False) \<longrightarrow>
            console (snd (jsonl_read parse p onBatch k w))
              = console w @ map warning (skipped parse (lines_of w p))"
    using jsonl_read_console [of onBatch parse p k w] by blast
  have g': "console (snd (jsonl_count parse p w))
           = console w @ map warning (skipped parse (lines_of w p))"
    by (rule jsonl_count_console)
  have h: "files (snd (jsonl_readLineByLine parse p onLine w)) = files w"
    by (rule jsonl_readLineByLine_files)
  have i: "files (snd (jsonl_read parse p onBatch k w)) = files w"
    by (rule jsonl_read_files)
  have j: "files (snd (jsonl_count parse p w)) = files w"
    by (rule jsonl_count_files)
  have fu: "files (snd (jsonlDir_update parse p onLine updateFn w)) = files w"
    unfolding jsonlDir_update_def by (rule closure_files) (rule jsonl_read_files)
  have fd: "files (snd (jsonlDir_delete parse p onLine w)) = files w"
    unfolding jsonlDir_delete_def by (rule closure_files) (rule jsonl_read_files)
  have l: "files (snd (jsonlFile_read parse p (call onLine) w)) = files w"
    by (rule jsonlFile_read_files)
  have m: "files (snd (jsonlFile_readByBatch parse p onBatch k w)) = files w"
    by (rule jsonlFile_readByBatch_files)
  have o: "files (snd (jsonlFile_findWhere parse builtin p attribute v w)) = files w"
    by (rule jsonlFile_findWhere_files)
  have q: "files (snd (jsonlFile_findMatch parse p onLine w)) = files w"
    by (rule jsonlFile_findMatch_files)
  have r: "files (snd (jsonlFile_count p w)) = files w"
    "files (snd (jsonlFile_first parse p w)) = files w"
    "files (snd (jsonlFile_last parse p w)) = files w"
    "files (snd (jsonlFile_ts_first parse p w)) = files w"
    "files (snd (jsonlFile_ts_last parse p w)) = files w"
    by (rule jsonlFile_first_last_files)+
  from a b n c d e f g g' h i j fu fd l m o q r show ?thesis
    by (intro conjI)
qed

theorem undecodable_lines_are_skipped_witness:
  "(0::nat) < 1
   \<and> fst (keep_going rec_a1 ()) = Inr False
   \<and> lines_of (world_of bad_fs ()) ''users.jsonl'' = [''not-json'', line_a1]
   \<and> records_of example_parse (world_of bad_fs ()) ''users.jsonl'' = [rec_a1]
   \<and> fst (jsonl_readLineByLine example_parse ''users.jsonl'' keep_going (world_of bad_fs ())) = Inr ()
   \<and> fst (jsonl_count example_parse ''users.jsonl'' (world_of bad_fs ())) = Inr 1
   \<and> console (snd (jsonl_readLineByLine example_parse ''users.jsonl'' keep_going (world_of bad_fs ())))
       = [''Warning: Skipping invalid JSON line: not-json...'']
   \<and> console (snd (jsonl_count example_parse ''users.jsonl'' (world_of bad_fs ())))
       = [''Warning: Skipping invalid JSON line: not-json...'']"
proof -
  have l: "lines_of (world_of bad_fs ()) ''users.jsonl'' = [''not-json'', line_a1]"
    by (simp add: lines_of_def world_of_def bad_fs_def split_bad_then_record)
  have s: "skipped example_parse [''not-json'', line_a1] = [''not-json'']"
    by (simp add: skipped_Cons_bad [where parse = example_parse, OF trim_not_json example_parse_not_json]
        skipped_Cons_ok [where parse = example_parse, OF example_parse_simps(1)])
  have c: "console (world_of bad_fs ()) = []"
    by (simp add: world_of_def)
  have ne: "line_a1 \<noteq> []"
    by (simp add: line_a1_def)
  have r: "records_of example_parse (world_of bad_fs ()) ''users.jsonl'' = [rec_a1]"
    using ne
    by (simp add: records_of_def world_of_def bad_fs_def split_bad_then_record
        decoded_Cons_None [where parse = example_parse, OF example_parse_not_json]
        decoded_Cons_Some trim_line_a1 example_parse_simps)
  have m: "warning ''not-json'' = ''Warning: Skipping invalid JSON line: not-json...''"
    by (simp add: warning_def substring_not_json)
  show ?thesis
    using undecodable_lines_are_skipped [where k = 1 and parse = example_parse
        and p = "''users.jsonl''" and onLine = keep_going and onBatch = keep_going
        and w = "world_of bad_fs ()"]
    by (simp add: l s c r m keep_going_def)
qed

text \<open>
  C3 as stated fails on the read paths of \<open>jsonlFile.js\<close>, where \<open>JSON.parse(line)\<close>
  stands unguarded: on a file whose first line is not JSON, \<open>read\<close> ends with a
  SyntaxError, and \<open>count\<close> counts that line too.
\<close>

theorem jsonlFile_read_throws_on_undecodable_line:
  "fst (jsonlFile_read example_parse ''users.jsonl'' (call keep_going) (world_of bad_fs ()))
     = Inl SyntaxError
   \<and> fst (jsonlFile_count ''users.jsonl'' (world_of bad_fs ())) = Inr 2
   \<and> records_of example_parse (world_of bad_fs ()) ''users.jsonl'' = [rec_a1]"
proof -
  have ne: "line_a1 \<noteq> []"
    by (simp add: line_a1_def)
  have 1: "fst (jsonlFile_read example_parse ''users.jsonl'' (call keep_going) (world_of bad_fs ()))
     = Inl SyntaxError"
    by (simp add: jsonlFile_read_def getRl_bnd world_of_def bad_fs_def split_bad_then_record
        jsonlFile_read_loop_None [where parse = example_parse, OF example_parse_not_json]
        del: jsonlFile_read_loop.simps)
  have 2: "fst (jsonlFile_count ''users.jsonl'' (world_of bad_fs ())) = Inr 2"
    by (simp add: jsonlFile_count_def getRl_bnd world_of_def bad_fs_def split_bad_then_record
        ret_def)
  have 3: "records_of example_parse (world_of bad_fs ()) ''users.jsonl'' = [rec_a1]"
    using ne
    by (simp add: records_of_def world_of_def bad_fs_def split_bad_then_record
        decoded_Cons_None [where parse = example_parse, OF example_parse_not_json]
        decoded_Cons_Some trim_line_a1 example_parse_simps)
  from 1 2 3 show ?thesis
    by simp
qed

section \<open>Rewriting a file\<close>

lemma updateWhere_onLine_step:
  "updateWhere_onLine stringify builtin tmp a v f
     = write_step stringify tmp (updateWhere_step builtin a v f)"
  by (rule ext, rule ext)
    (auto simp: updateWhere_onLine_def write_step_def updateWhere_step_def bnd_def call_def
      throw_def ret_def split: sum.splits prod.splits)

lemma updateMatch_onLine_step:
  "updateMatch_onLine stringify tmp m f = write_step stringify tmp (updateMatch_step m f)"
  by (rule ext, rule ext)
    (auto simp: updateMatch_onLine_def write_step_def updateMatch_step_def bnd_def call_def
      throw_def ret_def split: sum.splits prod.splits)

lemma deleteWhere_onLine_step:
  "deleteWhere_onLine stringify builtin tmp a v
     = write_step stringify tmp (deleteWhere_step builtin a v)"
  by (rule ext, rule ext)
    (auto simp: deleteWhere_onLine_def write_step_def deleteWhere_step_def bnd_def call_def
      throw_def ret_def split: sum.splits prod.splits)

lemma deleteMatch_onLine_step:
  "deleteMatch_onLine stringify tmp m = write_step stringify tmp (deleteMatch_step m)"
  by (rule ext, rule ext)
    (auto simp: deleteMatch_onLine_def write_step_def deleteMatch_step_def bnd_def call_def
      throw_def ret_def split: sum.splits prod.splits)

lemma updateWhere_copy_rewrite:
  "updateWhere parse stringify builtin t p a v f
     = copy_rewrite parse t p (\<lambda>t. updateWhere_onLine stringify builtin t a v f)"
  by (simp add: updateWhere_def copy_rewrite_def)

lemma updateMatch_copy_rewrite:
  "updateMatch parse stringify t p m f = copy_rewrite parse t p (\<lambda>t. updateMatch_onLine stringify t m f)"
  by (simp add: updateMatch_def copy_rewrite_def)

lemma deleteWhere_copy_rewrite:
  "deleteWhere parse stringify builtin t p a v
     = copy_rewrite parse t p (\<lambda>t. deleteWhere_onLine stringify builtin t a v)"
  by (simp add: deleteWhere_def copy_rewrite_def)

lemma deleteMatch_copy_rewrite:
  "deleteMatch parse stringify t p m = copy_rewrite parse t p (\<lambda>t. deleteMatch_onLine stringify t m)"
  by (simp add: deleteMatch_def copy_rewrite_def)

lemma same_except_refl [simp]: "same_except t w w"
  by (simp add: same_except_def)

lemma same_except_trans: "same_except t w'' w' \<Longrightarrow> same_except t w' w \<Longrightarrow> same_except t w'' w"
  by (simp add: same_except_def)

lemma jsonlFile_add_eq:
  "jsonlFile_add stringify t x w =
     (if \<not> isSingleJson x then (Inl InvalidInput, w)
      else (Inr (), w\<lparr>files := (files w)(t \<mapsto>
              (case files w t of
                 None \<Rightarrow> stringify x
               | Some c \<Rightarrow> if split_lines c = [] then c @ stringify x
                           else c @ [CHR 0x0A] @ stringify x))\<rparr>))"
proof -
  have i: "\<And>w'. jsonlFile_isEmptyFile t w' =
      (Inr (case files w' t of None \<Rightarrow> True | Some c \<Rightarrow> split_lines c = []), w')"
    by (simp add: jsonlFile_isEmptyFile_def getRl_bnd ret_def split: option.splits)
  have e: "ensureFileAndGetPrefix t w =
      (case files w t of
         None \<Rightarrow> (Inr [], w\<lparr>files := (files w)(t \<mapsto> [])\<rparr>)
       | Some c \<Rightarrow> (Inr (if split_lines c = [] then [] else [CHR 0x0A]), w))"
  proof (cases "files w t")
    case None
    then show ?thesis
      by (simp add: ensureFileAndGetPrefix_def) (simp add: bnd_def writeFile_def ret_def)
  next
    case (Some c)
    then show ?thesis
      by (simp add: ensureFileAndGetPrefix_def) (simp add: bnd_def i ret_def)
  qed
  show ?thesis
    by (cases "files w t")
      (simp_all add: jsonlFile_add_def addText_def bnd_def e appendFile_def ret_def throw_def)
qed

lemma jsonlFile_add_frame: "same_except t (snd (jsonlFile_add stringify t x w)) w"
  by (simp add: jsonlFile_add_eq same_except_def)

lemma call_frame: "same_except t (snd (call cb x w)) w"
  by (simp add: same_except_def call_files)

lemma write_step_frame: "same_except t (snd (write_step stringify t step line w)) w"
proof -
  obtain r w1 where c: "call step line w = (r, w1)"
    by (cases "call step line w")
  have f1: "same_except t w1 w"
    using call_frame [of t step line w] c by simp
  show ?thesis
  proof (cases r)
    case (Inl e)
    then show ?thesis using f1 by (simp add: write_step_def bnd_def c)
  next
    case (Inr out)
    show ?thesis
    proof (cases out)
      case None
      then show ?thesis using f1 Inr by (simp add: write_step_def bnd_def c ret_def)
    next
      case (Some x)
      have "same_except t (snd (jsonlFile_add stringify t x w1)) w1"
        by (rule jsonlFile_add_frame)
      then have "same_except t (snd (jsonlFile_add stringify t x w1)) w"
        using f1 by (rule same_except_trans)
      moreover obtain r2 w2 where a: "jsonlFile_add stringify t x w1 = (r2, w2)"
        by (cases "jsonlFile_add stringify t x w1")
      ultimately show ?thesis
        using Inr Some
        by (cases r2) (simp_all add: write_step_def bnd_def c ret_def)
    qed
  qed
qed

lemma jsonlFile_read_loop_frame:
  assumes "\<And>v w. same_except t (snd (onLine v w)) w"
  shows "same_except t (snd (jsonlFile_read_loop parse onLine ls w)) w"
proof (induction ls arbitrary: w)
  case Nil
  show ?case by (simp add: ret_def)
next
  case (Cons line rest)
  show ?case
  proof (cases "parse line")
    case None
    then show ?thesis
      by (simp add: jsonlFile_read_loop_None del: jsonlFile_read_loop.simps)
  next
    case (Some v)
    obtain r w1 where c: "onLine v w = (r, w1)"
      by (cases "onLine v w")
    have f1: "same_except t w1 w"
      using assms [of v w] c by simp
    have "same_except t (snd (jsonlFile_read_loop parse onLine rest w1)) w"
      using Cons.IH [of w1] f1 by (rule same_except_trans)
    then show ?thesis
      using f1
      by (simp only: jsonlFile_read_loop_Some [where parse = parse, OF Some])
        (simp add: bnd_def c ret_def split: sum.splits)
  qed
qed

lemma jsonlFile_read_frame:
  assumes "\<And>v w. same_except t (snd (onLine v w)) w"
  shows "same_except t (snd (jsonlFile_read parse p onLine w)) w"
  by (cases "files w p")
    (simp_all add: jsonlFile_read_def getRl_bnd jsonlFile_read_loop_frame [of t onLine, OF assms])

lemma copy_rewrite_commit:
  assumes ne: "t \<noteq> p"
    and fr: "\<And>v w. same_except t (snd (onLine t v w)) w"
  shows "(fst (copy_rewrite parse t p onLine w) = Inl e \<longrightarrow>
            files (snd (copy_rewrite parse t p onLine w)) p = files w p)
       \<and> (fst (copy_rewrite parse t p onLine w) = Inr () \<longrightarrow>
            fst (jsonlFile_read parse p (onLine t) w) = Inr ()
          \<and> files (snd (jsonlFile_read parse p (onLine t) w)) t \<noteq> None
          \<and> files (snd (copy_rewrite parse t p onLine w)) p
              = files (snd (jsonlFile_read parse p (onLine t) w)) t
          \<and> files (snd (copy_rewrite parse t p onLine w)) t = None)"
proof -
  obtain r w1 where rd: "jsonlFile_read parse p (onLine t) w = (r, w1)"
    by (cases "jsonlFile_read parse p (onLine t) w")
  have f1: "same_except t w1 w"
    using jsonlFile_read_frame [of t "onLine t" parse p w, OF fr] rd by simp
  then have p1: "files w1 p = files w p"
    using ne by (simp add: same_except_def)
  show ?thesis
  proof (cases r)
    case (Inl e')
    then show ?thesis
      using p1 ne
      by (simp add: copy_rewrite_def temporaryFileTask_def bnd_def rd unlink_def throw_def ret_def
          split: option.splits)
  next
    case (Inr u)
    show ?thesis
    proof (cases "files w1 t")
      case None
      then show ?thesis
        using p1 ne Inr
        by (simp add: copy_rewrite_def temporaryFileTask_def bnd_def rd rename_def unlink_def
            throw_def ret_def)
    next
      case (Some c)
      then show ?thesis
        using p1 ne Inr
        by (simp add: copy_rewrite_def temporaryFileTask_def bnd_def rd rename_def unlink_def
            throw_def ret_def)
    qed
  qed
qed

lemma split_lines_from_Nil_iff: "split_lines_from cur s = [] \<longleftrightarrow> cur = [] \<and> s = []"
  by (induction s arbitrary: cur) simp_all

lemma split_lines_Nil_iff: "split_lines s = [] \<longleftrightarrow> s = []"
  by (simp add: split_lines_def split_lines_from_Nil_iff)

lemma split_lines_from_plain:
  "CHR 0x0A \<notin> set l \<Longrightarrow> CHR 0x0D \<notin> set l \<Longrightarrow>
   split_lines_from cur (l @ rest) = split_lines_from (cur @ l) rest"
  by (induction l arbitrary: cur) auto

lemma split_join_lines:
  "\<forall>l\<in>set ls. l \<noteq> [] \<and> CHR 0x0A \<notin> set l \<and> CHR 0x0D \<notin> set l \<Longrightarrow>
   split_lines (join_lines ls) = ls"
proof (induction ls rule: join_lines.induct)
  case 1
  show ?case by (simp add: split_lines_def)
next
  case (2 l)
  then show ?case
    using split_lines_from_plain [where l = l and cur = "[]" and rest = "[]"]
    by (simp add: split_lines_def)
next
  case (3 l l' ls)
  then have ih: "split_lines_from [] (join_lines (l' # ls)) = l' # ls"
    by (simp add: split_lines_def)
  from 3 have "split_lines_from [] (l @ CHR 0x0A # join_lines (l' # ls))
      = split_lines_from l (CHR 0x0A # join_lines (l' # ls))"
    using split_lines_from_plain
      [where l = l and cur = "[]" and rest = "CHR 0x0A # join_lines (l' # ls)"] by simp
  then show ?case
    by (simp add: split_lines_def ih)
qed

lemma join_lines_snoc: "ls \<noteq> [] \<Longrightarrow> join_lines (ls @ [l]) = join_lines ls @ [CHR 0x0A] @ l"
  by (induction ls rule: join_lines.induct) simp_all

lemma join_lines_nonempty: "ls \<noteq> [] \<Longrightarrow> \<forall>l\<in>set ls. l \<noteq> [] \<Longrightarrow> join_lines ls \<noteq> []"
  by (induction ls rule: join_lines.induct) simp_all

lemma add_scratch:
  assumes x: "isSingleJson x"
    and str: "\<And>v. isSingleJson v \<Longrightarrow> stringify v \<noteq> []"
    and acc: "\<forall>a\<in>set acc. isSingleJson a"
    and sc: "files w t = scratch stringify acc"
  shows "jsonlFile_add stringify t x w
           = (Inr (), w\<lparr>files := (files w)(t := scratch stringify (acc @ [x]))\<rparr>)"
proof (cases "acc = []")
  case True
  with sc x show ?thesis
    by (simp add: jsonlFile_add_eq scratch_def)
next
  case False
  have "\<forall>l\<in>set (map stringify acc). l \<noteq> []"
    using acc str by auto
  with False have "join_lines (map stringify acc) \<noteq> []"
    by (simp add: join_lines_nonempty)
  with False sc x show ?thesis
    by (simp add: jsonlFile_add_eq scratch_def split_lines_Nil_iff join_lines_snoc)
qed

lemma scratch_Nil [simp]: "scratch stringify [] = None"
  by (simp add: scratch_def)

lemma write_step_eq:
  assumes c: "step v (user w) = (r, u1)"
  shows "write_step stringify t step v w =
     (case r of
        Inl e \<Rightarrow> (Inl e, w\<lparr>user := u1\<rparr>)
      | Inr None \<Rightarrow> (Inr False, w\<lparr>user := u1\<rparr>)
      | Inr (Some x) \<Rightarrow>
          (case jsonlFile_add stringify t x (w\<lparr>user := u1\<rparr>) of
             (Inl e, w') \<Rightarrow> (Inl e, w')
           | (Inr _, w') \<Rightarrow> (Inr False, w')))"
  by (simp add: write_step_def bnd_def call_eq [where cb = step, OF c] ret_def
      split: sum.splits option.splits prod.splits)

lemma write_loop:
  assumes str: "\<And>v. isSingleJson v \<Longrightarrow> stringify v \<noteq> []"
  shows "\<forall>l\<in>set ls. trim l \<noteq> [] \<and> parse l \<noteq> None \<Longrightarrow>
     \<forall>a\<in>set acc. isSingleJson a \<Longrightarrow>
     files w t = scratch stringify acc \<Longrightarrow>
     (case rewritten step (decoded parse ls) (user w) of
        (Inl e, u') \<Rightarrow>
          fst (jsonlFile_read_loop parse (write_step stringify t step) ls w) = Inl e
          \<and> user (snd (jsonlFile_read_loop parse (write_step stringify t step) ls w)) = u'
      | (Inr outs, u') \<Rightarrow>
          jsonlFile_read_loop parse (write_step stringify t step) ls w
            = (Inr (), w\<lparr>user := u', files := (files w)(t := scratch stringify (acc @ outs))\<rparr>))"
proof (induction ls arbitrary: w acc)
  case Nil
  have "(files w)(t := files w t) = files w"
    by (rule fun_upd_idem) simp
  with Nil.prems(3) show ?case
    by (simp add: ret_def)
next
  case (Cons line rest)
  from Cons.prems(1) obtain v where ok: "trim line \<noteq> []" "parse line = Some v"
    by auto
  have rest: "\<forall>l\<in>set rest. trim l \<noteq> [] \<and> parse l \<noteq> None"
    using Cons.prems(1) by simp
  have d: "decoded parse (line # rest) = v # decoded parse rest"
    using ok by (rule decoded_Cons_Some)
  obtain r u1 where c: "step v (user w) = (r, u1)"
    by (cases "step v (user w)")
  let ?w1 = "w\<lparr>user := u1\<rparr>"
  let ?loop = "jsonlFile_read_loop parse (write_step stringify t step)"
  note ws = write_step_eq [where stringify = stringify and t = t and step = step, OF c]
  have step: "?loop (line # rest) w =
      (case write_step stringify t step v w of
         (Inl e, w') \<Rightarrow> (Inl e, w')
       | (Inr canEnd, w') \<Rightarrow> if canEnd then (Inr (), w') else ?loop rest w')"
    by (simp only: jsonlFile_read_loop_Some [where parse = parse, OF ok(2)])
      (simp add: bnd_def ret_def split: sum.splits prod.splits)
  show ?case
  proof (cases r)
    case (Inl e)
    then show ?thesis
      by (simp add: d c step ws del: jsonlFile_read_loop.simps)
  next
    case (Inr out)
    obtain r' u' where rw: "rewritten step (decoded parse rest) u1 = (r', u')"
      by (cases "rewritten step (decoded parse rest) u1")
    show ?thesis
    proof (cases out)
      case None
      have sc1: "files ?w1 t = scratch stringify acc"
        using Cons.prems(3) by simp
      have lp: "?loop (line # rest) w = ?loop rest ?w1"
        by (simp add: step ws Inr None del: jsonlFile_read_loop.simps)
      have rw0: "rewritten step (decoded parse (line # rest)) (user w) = (r', u')"
        by (simp add: d c Inr None rw)
      note ih = Cons.IH [OF rest Cons.prems(2) sc1]
      show ?thesis
      proof (cases r')
        case (Inl e)
        with ih rw show ?thesis
          by (simp add: rw0 lp del: jsonlFile_read_loop.simps)
      next
        case r'': (Inr xs)
        have "?loop rest ?w1
            = (Inr (), ?w1\<lparr>user := u', files := (files ?w1)(t := scratch stringify (acc @ xs))\<rparr>)"
          using ih rw r'' by simp
        then show ?thesis
          by (simp add: rw0 r'' lp del: jsonlFile_read_loop.simps)
      qed
    next
      case (Some x)
      show ?thesis
      proof (cases "isSingleJson x")
        case False
        then show ?thesis
          by (simp add: d c step ws Inr Some jsonlFile_add_eq del: jsonlFile_read_loop.simps)
      next
        case True
        have sc1: "files ?w1 t = scratch stringify acc"
          using Cons.prems(3) by simp
        let ?w2 = "?w1\<lparr>files := (files ?w1)(t := scratch stringify (acc @ [x]))\<rparr>"
        have a: "jsonlFile_add stringify t x ?w1 = (Inr (), ?w2)"
          using True str Cons.prems(2) sc1 by (rule add_scratch)
        have acc2: "\<forall>a\<in>set (acc @ [x]). isSingleJson a"
          using Cons.prems(2) True by simp
        have sc2: "files ?w2 t = scratch stringify (acc @ [x])"
          by simp
        have lp: "?loop (line # rest) w = ?loop rest ?w2"
          by (simp add: step ws Inr Some a del: jsonlFile_read_loop.simps)
        have u2: "user ?w2 = u1"
          by simp
        note ih = Cons.IH [OF rest acc2 sc2, unfolded u2]
        show ?thesis
        proof (cases r')
          case (Inl e)
          have "rewritten step (decoded parse (line # rest)) (user w) = (Inl e, u')"
            by (simp add: d c Inr Some True rw Inl)
          moreover have "fst (?loop rest ?w2) = Inl e \<and> user (snd (?loop rest ?w2)) = u'"
            using ih by (simp add: rw Inl)
          ultimately show ?thesis
            by (simp add: lp del: jsonlFile_read_loop.simps)
        next
          case r'': (Inr xs)
          have rw0: "rewritten step (decoded parse (line # rest)) (user w) = (Inr (x # xs), u')"
            by (simp add: d c Inr Some True rw r'')
          have "?loop rest ?w2
              = (Inr (), ?w2\<lparr>user := u', files := (files ?w2)(t := scratch stringify ((acc @ [x]) @ xs))\<rparr>)"
            using ih by (simp add: rw r'')
          moreover have "?w2\<lparr>user := u', files := (files ?w2)(t := scratch stringify ((acc @ [x]) @ xs))\<rparr>
              = w\<lparr>user := u', files := (files w)(t := scratch stringify (acc @ x # xs))\<rparr>"
            by simp
          ultimately show ?thesis
            by (simp only: rw0 lp) simp
        qed
      qed
    qed
  qed
qed

lemma copy_rewrite_atomic:
  assumes "t \<noteq> p" and "\<And>v w. same_except t (snd (onLine t v w)) w"
  shows "atomic_rewrite t p (copy_rewrite parse t p onLine) (jsonlFile_read parse p (onLine t)) w"
  unfolding atomic_rewrite_def
  using copy_rewrite_commit [of t p onLine parse w, OF assms] by blast

lemma copy_rewrite_writes:
  assumes ne: "t \<noteq> p" and fresh: "files w t = None" and f: "files w p = Some c"
    and dec: "\<forall>l\<in>set (split_lines c). trim l \<noteq> [] \<and> parse l \<noteq> None"
    and str: "\<And>v. isSingleJson v \<Longrightarrow> stringify v \<noteq> []"
  shows "writes_records stringify p step (decoded parse (split_lines c))
           (copy_rewrite parse t p (\<lambda>t. write_step stringify t step)) w"
proof -
  let ?loop = "jsonlFile_read_loop parse (write_step stringify t step) (split_lines c) w"
  let ?R = "copy_rewrite parse t p (\<lambda>t. write_step stringify t step) w"
  obtain r u' where rw: "rewritten step (decoded parse (split_lines c)) (user w) = (r, u')"
    by (cases "rewritten step (decoded parse (split_lines c)) (user w)")
  have rd: "jsonlFile_read parse p (write_step stringify t step) w = ?loop"
    using f by (simp add: jsonlFile_read_def getRl_bnd)
  have sc: "files w t = scratch stringify []"
    using fresh by simp
  note wl = write_loop [where stringify = stringify and parse = parse and step = step
      and acc = "[]" and w = w and t = t, OF str dec _ sc, simplified rw]
  obtain r1 w1 where lp: "?loop = (r1, w1)"
    by (cases ?loop)
  have fr: "same_except t w1 w"
    using jsonlFile_read_loop_frame [of t "write_step stringify t step" parse "split_lines c" w]
      write_step_frame lp by (metis snd_conv)
  show ?thesis
  proof (cases r)
    case (Inl e)
    then have r1: "r1 = Inl e"
      using wl lp by simp
    have "files (snd ?R) = files w"
    proof (rule ext)
      fix q
      show "files (snd ?R) q = files w q"
        using fr fresh
        by (cases "files w1 t"; cases "q = t")
          (simp_all add: copy_rewrite_def temporaryFileTask_def bnd_def rd lp r1 unlink_def
            throw_def ret_def same_except_def)
    qed
    moreover have "fst ?R = Inl e"
      by (simp add: copy_rewrite_def temporaryFileTask_def bnd_def rd lp r1 split: prod.splits)
    ultimately show ?thesis
      by (simp add: writes_records_def rw Inl)
  next
    case (Inr outs)
    then have l1: "?loop = (Inr (), w\<lparr>user := u', files := (files w)(t := scratch stringify outs)\<rparr>)"
      using wl by simp
    show ?thesis
    proof (cases "outs = []")
      case True
      have "(files w)(t := None) = files w"
        using fresh by (metis fun_upd_idem)
      then show ?thesis
        using True
        by (simp add: writes_records_def rw Inr copy_rewrite_def temporaryFileTask_def bnd_def rd l1
            rename_def unlink_def throw_def ret_def fresh)
    next
      case False
      have "(files w)(p \<mapsto> join_lines (map stringify outs), t := None)
          = (files w)(p \<mapsto> join_lines (map stringify outs))"
        using fresh ne by (metis fun_upd_idem fun_upd_other)
      then show ?thesis
        using False ne
        by (simp add: writes_records_def rw Inr copy_rewrite_def temporaryFileTask_def bnd_def rd l1
            rename_def unlink_def throw_def ret_def scratch_def fun_upd_twist fresh)
    qed
  qed
qed

text \<open>
  C1. Let the scratch path differ from the source path. Each of \<open>updateWhere\<close>,
  \<open>updateMatch\<close>, \<open>deleteWhere\<close> and \<open>deleteMatch\<close> is atomic by rename: if it fails for
  any reason (a predicate or update function that throws, at any record, included) the
  source file's content is what it was before the call, and if it succeeds the source
  file holds exactly what the traversal had put into the scratch file. On a source file
  that exists and whose every line decodes, with a fresh scratch path, that content is the
  sequence of the records passed to \<open>tmpFile.add\<close>, encoded and joined by newlines.
\<close>

theorem mutations_commit_by_rename:
  assumes "tempFilePath \<noteq> path"
  shows "atomic_rewrite tempFilePath path
           (updateWhere parse stringify builtin tempFilePath path attribute v updateFn)
           (jsonlFile_read parse path (updateWhere_onLine stringify builtin tempFilePath attribute v updateFn)) w
       \<and> atomic_rewrite tempFilePath path
           (updateMatch parse stringify tempFilePath path matchFn updateFn)
           (jsonlFile_read parse path (updateMatch_onLine stringify tempFilePath matchFn updateFn)) w
       \<and> atomic_rewrite tempFilePath path
           (deleteWhere parse stringify builtin tempFilePath path attribute v)
           (jsonlFile_read parse path (deleteWhere_onLine stringify builtin tempFilePath attribute v)) w
       \<and> atomic_rewrite tempFilePath path
           (deleteMatch parse stringify tempFilePath path matchFn)
           (jsonlFile_read parse path (deleteMatch_onLine stringify tempFilePath matchFn)) w
       \<and> (files w tempFilePath = None \<and> files w path = Some c
            \<and> (\<forall>l\<in>set (split_lines c). trim l \<noteq> [] \<and> parse l \<noteq> None)
            \<and> (\<forall>x. isSingleJson x \<longrightarrow> stringify x \<noteq> []) \<longrightarrow>
            writes_records stringify path (updateWhere_step builtin attribute v updateFn)
              (decoded parse (split_lines c))
              (updateWhere parse stringify builtin tempFilePath path attribute v updateFn) w
          \<and> writes_records stringify path (updateMatch_step matchFn updateFn)
              (decoded parse (split_lines c))
              (updateMatch parse stringify tempFilePath path matchFn updateFn) w
          \<and> writes_records stringify path (deleteWhere_step builtin attribute v)
              (decoded parse (split_lines c))
              (deleteWhere parse stringify builtin tempFilePath path attribute v) w
          \<and> writes_records stringify path (deleteMatch_step matchFn)
              (decoded parse (split_lines c))
              (deleteMatch parse stringify tempFilePath path matchFn) w)"
proof -
  note at = copy_rewrite_atomic [where parse = parse and w = w, OF assms]
  have a1: "atomic_rewrite tempFilePath path
           (updateWhere parse stringify builtin tempFilePath path attribute v updateFn)
           (jsonlFile_read parse path (updateWhere_onLine stringify builtin tempFilePath attribute v updateFn)) w"
    unfolding updateWhere_copy_rewrite
    by (rule at) (simp only: updateWhere_onLine_step write_step_frame)
  have a2: "atomic_rewrite tempFilePath path
           (updateMatch parse stringify tempFilePath path matchFn updateFn)
           (jsonlFile_read parse path (updateMatch_onLine stringify tempFilePath matchFn updateFn)) w"
    unfolding updateMatch_copy_rewrite
    by (rule at) (simp only: updateMatch_onLine_step write_step_frame)
  have a3: "atomic_rewrite tempFilePath path
           (deleteWhere parse stringify builtin tempFilePath path attribute v)
           (jsonlFile_read parse path (deleteWhere_onLine stringify builtin tempFilePath attribute v)) w"
    unfolding deleteWhere_copy_rewrite
    by (rule at) (simp only: deleteWhere_onLine_step write_step_frame)
  have a4: "atomic_rewrite tempFilePath path
           (deleteMatch parse stringify tempFilePath path matchFn)
           (jsonlFile_read parse path (deleteMatch_onLine stringify tempFilePath matchFn)) w"
    unfolding deleteMatch_copy_rewrite
    by (rule at) (simp only: deleteMatch_onLine_step write_step_frame)
  have b: "files w tempFilePath = None \<and> files w path = Some c
            \<and> (\<forall>l\<in>set (split_lines c). trim l \<noteq> [] \<and> parse l \<noteq> None)
            \<and> (\<forall>x. isSingleJson x \<longrightarrow> stringify x \<noteq> []) \<longrightarrow>
            writes_records stringify path (updateWhere_step builtin attribute v updateFn)
              (decoded parse (split_lines c))
              (updateWhere parse stringify builtin tempFilePath path attribute v updateFn) w
          \<and> writes_records stringify path (updateMatch_step matchFn updateFn)
              (decoded parse (split_lines c))
              (updateMatch parse stringify tempFilePath path matchFn updateFn) w
          \<and> writes_records stringify path (deleteWhere_step builtin attribute v)
              (decoded parse (split_lines c))
              (deleteWhere parse stringify builtin tempFilePath path attribute v) w
          \<and> writes_records stringify path (deleteMatch_step matchFn)
              (decoded parse (split_lines c))
              (deleteMatch parse stringify tempFilePath path matchFn) w"
  proof (intro impI, elim conjE)
    assume fresh: "files w tempFilePath = None" and f: "files w path = Some c"
      and dec: "\<forall>l\<in>set (split_lines c). trim l \<noteq> [] \<and> parse l \<noteq> None"
      and str: "\<forall>x. isSingleJson x \<longrightarrow> stringify x \<noteq> []"
    have str': "\<And>x. isSingleJson x \<Longrightarrow> stringify x \<noteq> []"
      using str by blast
    note wr = copy_rewrite_writes [where parse = parse and stringify = stringify,
        OF assms fresh f dec str']
    show "writes_records stringify path (updateWhere_step builtin attribute v updateFn)
              (decoded parse (split_lines c))
              (updateWhere parse stringify builtin tempFilePath path attribute v updateFn) w
          \<and> writes_records stringify path (updateMatch_step matchFn updateFn)
              (decoded parse (split_lines c))
              (updateMatch parse stringify tempFilePath path matchFn updateFn) w
          \<and> writes_records stringify path (deleteWhere_step builtin attribute v)
              (decoded parse (split_lines c))
              (deleteWhere parse stringify builtin tempFilePath path attribute v) w
          \<and> writes_records stringify path (deleteMatch_step matchFn)
              (decoded parse (split_lines c))
              (deleteMatch parse stringify tempFilePath path matchFn) w"
      unfolding updateWhere_copy_rewrite updateMatch_copy_rewrite deleteWhere_copy_rewrite
        deleteMatch_copy_rewrite updateWhere_onLine_step updateMatch_onLine_step
        deleteWhere_onLine_step deleteMatch_onLine_step
      by (intro conjI wr)
  qed
  from a1 a2 a3 a4 b show ?thesis
    by (intro conjI)
qed

lemma users_decoded: "decoded example_parse (split_lines two_lines) = [rec_a1, rec_a2]"
  using users_records [of "()"] by (simp add: records_of_def world_of_def users_fs_def)

lemma example_stringify_nonempty: "example_stringify x \<noteq> []"
  by (simp add: example_stringify_def line_a1_def line_a2_def line_b1_def)


theorem mutations_commit_by_rename_witness:
  "''tmp'' \<noteq> ''users.jsonl''
   \<and> fst (deleteMatch example_parse example_stringify ''tmp'' ''users.jsonl'' is_a1
           (world_of users_fs ())) = Inr ()
   \<and> files (snd (deleteMatch example_parse example_stringify ''tmp'' ''users.jsonl'' is_a1
           (world_of users_fs ()))) = [''users.jsonl'' \<mapsto> line_a2]"
proof -
  have ne: "''tmp'' \<noteq> ''users.jsonl''"
    by simp
  have f: "files (world_of users_fs ()) ''users.jsonl'' = Some two_lines"
    "files (world_of users_fs ()) ''tmp'' = None"
    by (simp_all add: world_of_def users_fs_def)
  have rw: "rewritten (deleteMatch_step is_a1) [rec_a1, rec_a2] () = (Inr [rec_a2], ())"
    by (simp add: deleteMatch_step_def is_a1_def pure_cb_def rec_a1_def rec_a2_def)
  have fs: "(files (world_of users_fs ()))(''users.jsonl'' \<mapsto> line_a2) = [''users.jsonl'' \<mapsto> line_a2]"
    by (simp add: world_of_def users_fs_def)
  have es: "example_stringify rec_a2 = line_a2"
    by (simp add: example_stringify_def rec_a1_def rec_a2_def)
  show ?thesis
    using mutations_commit_by_rename [where tempFilePath = "''tmp''" and path = "''users.jsonl''"
        and parse = example_parse and stringify = example_stringify and matchFn = is_a1
        and w = "world_of users_fs ()" and c = two_lines and attribute = "''a''" and v = Undefined
        and updateFn = "\<lambda>r u. (Inr r, u)", OF ne]
      f users_lines_decode example_stringify_nonempty
    by (simp add: writes_records_def users_decoded rw es fs del: rewritten.simps)
qed


section \<open>Deleting records\<close>

text \<open>
  C5 at a failing input. The file holds two records and the predicate is true of both.
  \<open>deleteMatch\<close> writes nothing, so the scratch file is never created, and \<open>rename\<close>
  fails with ENOENT: the call throws and the file still holds its two records
  (\<open>count\<close> is 2, where the claim says 0).
\<close>

theorem deleteMatch_of_every_record_fails:
  "deleteMatch example_parse example_stringify ''tmp'' ''users.jsonl'' always_true
       (world_of users_fs ())
     = (Inl ENOENT, world_of users_fs ())
   \<and> jsonlFile_count ''users.jsonl'' (world_of users_fs ()) = (Inr 2, world_of users_fs ())"
proof -
  have on: "\<And>line w. deleteMatch_onLine example_stringify ''tmp'' always_true line w = (Inr False, w)"
    by (simp add: deleteMatch_onLine_def bnd_def call_def always_true_def ret_def)
  have lp: "\<And>w. jsonlFile_read_loop example_parse
        (deleteMatch_onLine example_stringify ''tmp'' always_true) [line_a1, line_a2] w = (Inr (), w)"
    by (simp add: jsonlFile_read_loop_Some [where parse = example_parse, OF example_parse_simps(1)]
        jsonlFile_read_loop_Some [where parse = example_parse, OF example_parse_simps(2)]
        bnd_def on ret_def del: jsonlFile_read_loop.simps(2))
  have rd: "jsonlFile_read example_parse ''users.jsonl''
        (deleteMatch_onLine example_stringify ''tmp'' always_true) (world_of users_fs ())
      = (Inr (), world_of users_fs ())"
    by (simp add: jsonlFile_read_def getRl_bnd world_of_def users_fs_def split_two_lines lp
        del: jsonlFile_read_loop.simps(2))
  have t: "files (world_of users_fs ()) ''tmp'' = None"
    by (simp add: world_of_def users_fs_def)
  have d: "deleteMatch example_parse example_stringify ''tmp'' ''users.jsonl'' always_true
       (world_of users_fs ()) = (Inl ENOENT, world_of users_fs ())"
    by (simp add: deleteMatch_def temporaryFileTask_def bnd_def rd t rename_def unlink_def throw_def)
  have c: "jsonlFile_count ''users.jsonl'' (world_of users_fs ()) = (Inr 2, world_of users_fs ())"
    by (simp add: jsonlFile_count_def getRl_bnd world_of_def users_fs_def split_two_lines ret_def)
  from d c show ?thesis by simp
qed

text \<open>
  When at least one record survives, \<open>deleteMatch\<close> does what C5 says: the file then holds
  the encodings of the records that do not satisfy the predicate, in their old order, and
  \<open>count\<close> gives the old number of records minus the number of matches.
\<close>

lemma rewritten_delete_pure:
  "\<forall>r\<in>set recs. isSingleJson r \<Longrightarrow>
   rewritten (deleteMatch_step (pure_cb p)) recs u = (Inr (filter (\<lambda>r. \<not> p r) recs), u)"
  by (induction recs) (simp_all add: deleteMatch_step_def pure_cb_def)

lemma decoded_objects:
  "\<forall>l\<in>set ls. trim l \<noteq> [] \<and> (\<exists>kvs. parse l = Some (JObj kvs)) \<Longrightarrow>
   \<forall>r\<in>set (decoded parse ls). isSingleJson r"
proof
  fix r
  assume a: "\<forall>l\<in>set ls. trim l \<noteq> [] \<and> (\<exists>kvs. parse l = Some (JObj kvs))"
    and "r \<in> set (decoded parse ls)"
  then obtain l where l: "l \<in> set ls" "parse l = Some r"
    using decoded_from_line by blast
  with a obtain kvs where "parse l = Some (JObj kvs)"
    by blast
  with l show "isSingleJson r"
    by auto
qed

lemma deleteMatch_keeps_survivors:
  assumes ne: "t \<noteq> p"
    and fresh: "files w t = None"
    and f: "files w p = Some c"
    and dec: "\<forall>l\<in>set (split_lines c). trim l \<noteq> [] \<and> (\<exists>kvs. parse l = Some (JObj kvs))"
    and str: "\<And>x. isSingleJson x \<Longrightarrow>
                stringify x \<noteq> [] \<and> CHR 0x0A \<notin> set (stringify x) \<and> CHR 0x0D \<notin> set (stringify x)"
    and some: "filter (\<lambda>r. \<not> q r) (decoded parse (split_lines c)) \<noteq> []"
  shows "fst (deleteMatch parse stringify t p (pure_cb q) w) = Inr ()
       \<and> lines_of (snd (deleteMatch parse stringify t p (pure_cb q) w)) p
           = map stringify (filter (\<lambda>r. \<not> q r) (decoded parse (split_lines c)))
       \<and> fst (jsonlFile_count p (snd (deleteMatch parse stringify t p (pure_cb q) w)))
           = Inr (length (decoded parse (split_lines c))
                  - length (filter q (decoded parse (split_lines c))))"
proof -
  let ?recs = "decoded parse (split_lines c)"
  let ?keep = "filter (\<lambda>r. \<not> q r) ?recs"
  let ?w' = "snd (deleteMatch parse stringify t p (pure_cb q) w)"
  have dec': "\<forall>l\<in>set (split_lines c). trim l \<noteq> [] \<and> parse l \<noteq> None"
    using dec by auto
  have obj: "\<forall>r\<in>set ?recs. isSingleJson r"
    using dec by (rule decoded_objects)
  have str': "\<And>x. isSingleJson x \<Longrightarrow> stringify x \<noteq> []"
    using str by blast
  have "writes_records stringify p (deleteMatch_step (pure_cb q)) ?recs
          (deleteMatch parse stringify t p (pure_cb q)) w"
    unfolding deleteMatch_copy_rewrite deleteMatch_onLine_step
    using ne fresh f dec' str' by (rule copy_rewrite_writes)
  then have ok: "fst (deleteMatch parse stringify t p (pure_cb q) w) = Inr ()"
    and fs: "files ?w' = (files w)(p \<mapsto> join_lines (map stringify ?keep))"
    using some by (simp_all add: writes_records_def rewritten_delete_pure [OF obj])
  have "\<forall>l\<in>set (map stringify ?keep). l \<noteq> [] \<and> CHR 0x0A \<notin> set l \<and> CHR 0x0D \<notin> set l"
    using obj str by auto
  then have sp: "split_lines (join_lines (map stringify ?keep)) = map stringify ?keep"
    by (rule split_join_lines)
  have ln: "lines_of ?w' p = map stringify ?keep"
    by (simp add: lines_of_def fs sp)
  have "length ?keep = length ?recs - length (filter q ?recs)"
    using sum_length_filter_compl [of q ?recs] by simp
  then have ct: "fst (jsonlFile_count p ?w') = Inr (length ?recs - length (filter q ?recs))"
    by (simp add: jsonlFile_count_def getRl_bnd fs sp ret_def)
  from ok ln ct show ?thesis by simp
qed

end
